theory Spec2Isabelle
  imports Complex_Main "HOL-Library.Multiset" "HOL-Library.Word"
begin

section \<open>Local file service (src/services/localService.ts)\<close>

text \<open>
  A browser \<open>File\<close> as far as \<open>processLocalFiles\<close> reads it, and the \<open>AudioFile\<close>
  of src/types.ts (its fields carry the prefix \<open>af_\<close>). Strings are lists of
  characters; a file size is a non-negative integer.
\<close>

record File =
  file_name :: string
  file_type :: string
  file_size :: nat
  webkitRelativePath :: string

record AudioFile =
  af_id :: string
  af_name :: string
  af_size :: string
  af_type :: string
  af_file :: File
  af_relativePath :: string

subsection \<open>String primitives of the host\<close>

text \<open>\<open>String.prototype.toLowerCase\<close> on the ASCII letters; every other character is kept.\<close>

definition lower_char :: "char \<Rightarrow> char" where
  "lower_char c =
     (let n = (of_char c :: nat) in if 65 \<le> n \<and> n \<le> 90 then char_of (n + 32) else c)"

definition toLowerCase :: "string \<Rightarrow> string" where
  "toLowerCase s = map lower_char s"

text \<open>\<open>s.endsWith(suf)\<close>: the last \<open>length suf\<close> characters of \<open>s\<close> are \<open>suf\<close>.\<close>

definition endsWith :: "string \<Rightarrow> string \<Rightarrow> bool" where
  "endsWith s suf = (take (length suf) (rev s) = rev suf)"

text \<open>\<open>Number.prototype.toString\<close> on a non-negative integer: its decimal digits.\<close>

definition digit_char :: "nat \<Rightarrow> char" where
  "digit_char d = char_of (48 + d)"

fun toString :: "nat \<Rightarrow> string" where
  "toString n =
     (if n < 10 then [digit_char n] else toString (n div 10) @ [digit_char (n mod 10)])"

declare toString.simps [simp del]

text \<open>The value of a decimal numeral, used to state that \<open>toString\<close> loses nothing.\<close>

definition digit_val :: "char \<Rightarrow> nat" where
  "digit_val c = of_char c - 48"

definition parseDecimal :: "string \<Rightarrow> nat" where
  "parseDecimal s = foldl (\<lambda>a c. 10 * a + digit_val c) 0 s"

text \<open>\<open>x || d\<close> on strings: the empty string is falsy.\<close>

definition or_else :: "string \<Rightarrow> string \<Rightarrow> string" where
  "or_else x d = (if x = [] then d else x)"

subsection \<open>\<open>Array.prototype.sort\<close> with a comparator\<close>

text \<open>
  The sort is stable and places \<open>a\<close> before \<open>b\<close> when the comparator's value on
  \<open>(a, b)\<close> is not positive. The comparator is an argument.
\<close>

fun insert_cmp :: "('a \<Rightarrow> 'a \<Rightarrow> int) \<Rightarrow> 'a \<Rightarrow> 'a list \<Rightarrow> 'a list" where
  "insert_cmp cmp x [] = [x]"
| "insert_cmp cmp x (y # ys) =
     (if cmp x y \<le> 0 then x # y # ys else y # insert_cmp cmp x ys)"

definition array_sort :: "('a \<Rightarrow> 'a \<Rightarrow> int) \<Rightarrow> 'a list \<Rightarrow> 'a list" where
  "array_sort cmp xs = foldr (insert_cmp cmp) xs []"

subsection \<open>processLocalFiles\<close>

text \<open>
  The filter of line 10: the lower-cased name ends with \<open>.mp3\<close>, or the MIME type is
  \<open>audio/mpeg\<close>.
\<close>

definition isMp3 :: "File \<Rightarrow> bool" where
  "isMp3 f = (endsWith (toLowerCase (file_name f)) ''.mp3'' \<or> file_type f = ''audio/mpeg'')"

text \<open>The object pushed at lines 11 to 18; \<open>uuid\<close> is the value of \<open>crypto.randomUUID()\<close>.\<close>

definition toAudioFile :: "string \<Rightarrow> File \<Rightarrow> AudioFile" where
  "toAudioFile uuid f =
     \<lparr> af_id = uuid,
       af_name = file_name f,
       af_size = toString (file_size f),
       af_type = or_else (file_type f) ''audio/mpeg'',
       af_file = f,
       af_relativePath = or_else (webkitRelativePath f) (file_name f) \<rparr>"

text \<open>
  The loop of lines 7 to 20. \<open>uuids k\<close> is the result of the \<open>k\<close>-th call of
  \<open>crypto.randomUUID()\<close>; \<open>k\<close> counts the files pushed so far.
\<close>

fun collect :: "(nat \<Rightarrow> string) \<Rightarrow> nat \<Rightarrow> File list \<Rightarrow> AudioFile list" where
  "collect uuids k [] = []"
| "collect uuids k (f # fs) =
     (if isMp3 f then toAudioFile (uuids k) f # collect uuids (Suc k) fs
      else collect uuids k fs)"

text \<open>
  \<open>localeCompare\<close> is the host's collation of two strings (negative, zero or positive);
  it is an argument of the model.
\<close>

definition processLocalFiles ::
  "(string \<Rightarrow> string \<Rightarrow> int) \<Rightarrow> (nat \<Rightarrow> string) \<Rightarrow> File list \<Rightarrow> AudioFile list" where
  "processLocalFiles localeCompare uuids fileList =
     array_sort (\<lambda>a b. localeCompare (af_name a) (af_name b)) (collect uuids 0 fileList)"

text \<open>A collation is consistent when it is total and transitive on "not after".\<close>

definition consistent_compare :: "(string \<Rightarrow> string \<Rightarrow> int) \<Rightarrow> bool" where
  "consistent_compare cmp =
     ((\<forall>a b. cmp a b \<le> 0 \<or> cmp b a \<le> 0) \<and>
      (\<forall>a b c. cmp a b \<le> 0 \<and> cmp b c \<le> 0 \<longrightarrow> cmp a c \<le> 0))"

text \<open>A concrete collation for evaluation: compare the lists of character codes.\<close>

fun codeCompare :: "string \<Rightarrow> string \<Rightarrow> int" where
  "codeCompare [] [] = 0"
| "codeCompare [] (y # ys) = -1"
| "codeCompare (x # xs) [] = 1"
| "codeCompare (x # xs) (y # ys) =
     (if (of_char x :: nat) < of_char y then -1
      else if (of_char y :: nat) < of_char x then 1
      else codeCompare xs ys)"

text \<open>What the claim about \<open>processLocalFiles\<close> calls an accepted file, in its own words:
  the name ends with \<open>.mp3\<close> in any mix of upper and lower case, or the MIME type is
  \<open>audio/mpeg\<close>.\<close>

definition mp3_by_name :: "string \<Rightarrow> bool" where
  "mp3_by_name n =
     (\<exists>stem b c. n = stem @ [CHR ''.'', b, c, CHR ''3''] \<and> (b = CHR ''m'' \<or> b = CHR ''M'')
         \<and> (c = CHR ''p'' \<or> c = CHR ''P''))"

definition accepted :: "File \<Rightarrow> bool" where
  "accepted f = (mp3_by_name (file_name f) \<or> file_type f = ''audio/mpeg'')"

definition exampleFiles :: "File list" where
  "exampleFiles =
     [\<lparr>file_name = ''b.MP3'', file_type = [], file_size = 1234, webkitRelativePath = []\<rparr>,
      \<lparr>file_name = ''notes.txt'', file_type = ''text/plain'', file_size = 7,
        webkitRelativePath = []\<rparr>,
      \<lparr>file_name = ''a'', file_type = ''audio/mpeg'', file_size = 20, webkitRelativePath = []\<rparr>]"

section \<open>The player component (src/unnamed/part_000)\<close>

text \<open>
  JavaScript numbers are modelled as exact rationals throughout: the component divides and
  multiplies small integers and decimal literals, and every comparison and rounding below
  is decided by the exact value.
\<close>

definition FREQ_MAX :: int where
  "FREQ_MAX = 12000"

text \<open>\<open>Math.round\<close>: the nearest integer, a tie going up. \<open>Math.floor\<close> is \<open>floor\<close>.\<close>

definition Math_round :: "rat \<Rightarrow> int" where
  "Math_round x = \<lfloor>x + 1 / 2\<rfloor>"

subsection \<open>generateBirdSongColormap\<close>

record keyPoint =
  pos :: rat
  color :: "int list"

definition keyPoints :: "keyPoint list" where
  "keyPoints =
     [\<lparr>pos = 0, color = [0, 0, 0, 1]\<rparr>,
      \<lparr>pos = 15 / 100, color = [20, 0, 60, 1]\<rparr>,
      \<lparr>pos = 4 / 10, color = [140, 0, 160, 1]\<rparr>,
      \<lparr>pos = 7 / 10, color = [255, 100, 0, 1]\<rparr>,
      \<lparr>pos = 1, color = [255, 255, 255, 1]\<rparr>]"

text \<open>
  The inner loop of lines 27 to 33: the first \<open>j\<close> with
  \<open>keyPoints[j].pos \<le> ratio \<le> keyPoints[j + 1].pos\<close>, \<open>None\<close> when the loop ends
  without a \<open>break\<close>.
\<close>

fun findInterval :: "keyPoint list \<Rightarrow> rat \<Rightarrow> (keyPoint \<times> keyPoint) option" where
  "findInterval (a # b # rest) ratio =
     (if ratio \<ge> pos a \<and> ratio \<le> pos b then Some (a, b) else findInterval (b # rest) ratio)"
| "findInterval _ ratio = None"

text \<open>One channel of lines 35 to 37.\<close>

definition channel :: "keyPoint \<Rightarrow> keyPoint \<Rightarrow> rat \<Rightarrow> nat \<Rightarrow> int" where
  "channel start stop rangeRatio c =
     Math_round (of_int (color start ! c)
        + (of_int (color stop ! c) - of_int (color start ! c)) * rangeRatio)"

text \<open>The body of the outer loop for index \<open>i\<close>: the triple that is pushed.\<close>

definition colormapEntry :: "keyPoint list \<Rightarrow> nat \<Rightarrow> int list" where
  "colormapEntry kps i =
     (let ratio = of_nat i / 255;
          (start, stop) = (case findInterval kps ratio of
                             Some p \<Rightarrow> p
                           | None \<Rightarrow> (hd kps, last kps));
          range = pos stop - pos start;
          rangeRatio = (if range = 0 then 0 else (ratio - pos start) / range)
      in [channel start stop rangeRatio 0,
          channel start stop rangeRatio 1,
          channel start stop rangeRatio 2])"

definition generateBirdSongColormap :: "int list list" where
  "generateBirdSongColormap = map (colormapEntry keyPoints) [0..<256]"

text \<open>
  The reference definition of the specification, in its words: the first interval
  \<open>[start, end]\<close> of adjacent keyframes with \<open>start.position \<le> ratio \<le> end.position\<close>,
  and on it each channel interpolated linearly and rounded to the nearest integer. It is
  undefined (\<open>None\<close>) where no interval holds the ratio or the interval is empty.
\<close>

definition reference_channel :: "keyPoint \<Rightarrow> keyPoint \<Rightarrow> rat \<Rightarrow> nat \<Rightarrow> int" where
  "reference_channel s e ratio c =
     round (of_int (color s ! c)
        + (of_int (color e ! c) - of_int (color s ! c)) * (ratio - pos s) / (pos e - pos s))"

definition reference_entry :: "keyPoint list \<Rightarrow> nat \<Rightarrow> int list option" where
  "reference_entry kps i =
     (let ratio = of_nat i / 255 in
      case find (\<lambda>(s, e). pos s \<le> ratio \<and> ratio \<le> pos e) (zip kps (tl kps)) of
        None \<Rightarrow> None
      | Some (s, e) \<Rightarrow>
          if pos e = pos s then None
          else Some (map (reference_channel s e ratio) [0, 1, 2]))"

definition valid_rgb :: "int list \<Rightarrow> bool" where
  "valid_rgb t = (length t = 3 \<and> (\<forall>v \<in> set t. 0 \<le> v \<and> v \<le> 255))"

subsection \<open>The canvas of the live waterfall\<close>

text \<open>
  A fill style is an opaque colour; \<open>'#000000'\<close> is \<open>Rgb 0 0 0\<close>.

  The waterfall is drawn in whole pixel columns: every \<open>fillRect\<close> of the component has
  an integer \<open>x\<close> and an integer width, and \<open>getImageData\<close>/\<open>putImageData\<close> move whole
  columns. Vertically the rectangles have fractional bounds, whose rasterisation is the
  browser's. A column is therefore kept as the list of the rectangles \<open>(y, h, style)\<close>
  painted on it, in order, since the last rectangle that covered it from top to bottom
  (which is kept as the first element); an empty list is a column that was never painted.
\<close>

datatype style = Rgb int int int

record band =
  band_y :: rat
  band_h :: rat
  band_style :: style

type_synonym column = "band list"

record canvas =
  width :: nat
  height :: nat
  columns :: "column list"
  fillStyle :: style

datatype dom_error = IndexSizeError

definition black :: style where
  "black = Rgb 0 0 0"

text \<open>Painting the rectangle \<open>[y, y + h]\<close> on one column of a canvas of height \<open>H\<close>; a
  rectangle of height zero paints nothing, a negative height extends upwards.\<close>

definition paint :: "nat \<Rightarrow> rat \<Rightarrow> rat \<Rightarrow> style \<Rightarrow> column \<Rightarrow> column" where
  "paint H y h s col =
     (let top = (if h < 0 then y + h else y); len = \<bar>h\<bar>;
          b = \<lparr>band_y = top, band_h = len, band_style = s\<rparr>
      in if len = 0 then col
         else if top \<le> 0 \<and> of_nat H \<le> top + len then [b]
         else col @ [b])"

text \<open>\<open>ctx.fillRect(x, y, w, h)\<close> with integer \<open>x\<close> and \<open>w\<close>.\<close>

definition fillRect :: "canvas \<Rightarrow> int \<Rightarrow> rat \<Rightarrow> int \<Rightarrow> rat \<Rightarrow> canvas" where
  "fillRect c x y w h =
     c\<lparr>columns :=
         map (\<lambda>(k, col). if x \<le> int k \<and> int k < x + w
                          then paint (height c) y h (fillStyle c) col else col)
             (enumerate 0 (columns c))\<rparr>"

text \<open>
  \<open>ctx.getImageData(sx, 0, sw, canvas.height)\<close>: the columns \<open>sx, \<dots>, sx + sw - 1\<close>
  (for a negative \<open>sw\<close> the \<open>-sw\<close> columns that end before \<open>sx\<close>); a column outside
  the canvas is empty. A zero width or height raises \<open>IndexSizeError\<close>.
\<close>

definition getImageData :: "canvas \<Rightarrow> int \<Rightarrow> int \<Rightarrow> dom_error + column list" where
  "getImageData c sx sw =
     (if sw = 0 \<or> height c = 0 then Inl IndexSizeError
      else Inr (map (\<lambda>x. if 0 \<le> x \<and> x < int (length (columns c))
                          then columns c ! nat x else [])
                    (if sw < 0 then [sx + sw..sx - 1] else [sx..sx + sw - 1])))"

text \<open>\<open>ctx.putImageData(imageData, dx, 0)\<close>: column \<open>dx + k\<close> becomes the \<open>k\<close>-th column of
  the image, where it lies on the canvas.\<close>

definition putImageData :: "canvas \<Rightarrow> column list \<Rightarrow> int \<Rightarrow> canvas" where
  "putImageData c img dx =
     c\<lparr>columns :=
         map (\<lambda>(k, col). if dx \<le> int k \<and> int k < dx + int (length img)
                          then img ! nat (int k - dx) else col)
             (enumerate 0 (columns c))\<rparr>"

subsection \<open>renderLive\<close>

text \<open>\<open>dataArray[i]\<close> on the \<open>Uint8Array\<close>: \<open>undefined\<close> beyond its length.\<close>

definition dataAt :: "8 word list \<Rightarrow> nat \<Rightarrow> 8 word option" where
  "dataAt dataArray i = (if i < length dataArray then Some (dataArray ! i) else None)"

text \<open>Line 209: \<open>Math.floor((FREQ_MAX / nyquist) * bufferLength)\<close>.\<close>

definition maxFreqIndex :: "rat \<Rightarrow> nat \<Rightarrow> int" where
  "maxFreqIndex sampleRate bufferLength =
     (let nyquist = sampleRate / 2 in \<lfloor>(of_int FREQ_MAX / nyquist) * of_nat bufferLength\<rfloor>)"

text \<open>Lines 215 and 216: the top edge \<open>y\<close> and the thickness of the band of bin \<open>i\<close>.\<close>

definition bandY :: "nat \<Rightarrow> int \<Rightarrow> nat \<Rightarrow> rat" where
  "bandY H m i = of_nat H - (of_nat i / of_int m) * of_nat H"

definition bandHeight :: "nat \<Rightarrow> int \<Rightarrow> rat" where
  "bandHeight H m = of_nat H / of_int m + 1"

text \<open>The body of the loop of lines 210 to 219 for bin \<open>i\<close>.\<close>

definition drawBin :: "int list list \<Rightarrow> 8 word list \<Rightarrow> int \<Rightarrow> canvas \<Rightarrow> nat \<Rightarrow> canvas" where
  "drawBin colormap dataArray m c i =
     (case dataAt dataArray i of
        None \<Rightarrow> c
      | Some v \<Rightarrow>
          if 0 < v then
            let e = colormap ! unat v;
                c1 = c\<lparr>fillStyle := Rgb (e ! 0) (e ! 1) (e ! 2)\<rparr>;
                x = int (width c) - 1;
                y = bandY (height c) m i;
                h = bandHeight (height c) m
            in fillRect c1 x (y - h) 1 h
          else c)"

text \<open>Lines 207 and 208: the mean of the first fifty bins; \<open>None\<close> is \<open>NaN\<close>, the sum
  over an \<open>undefined\<close> element.\<close>

definition signalLevelOf :: "8 word list \<Rightarrow> rat option" where
  "signalLevelOf dataArray =
     (if 50 \<le> length dataArray
      then Some (of_nat (sum_list (map unat (take 50 dataArray))) / 50) else None)"

text \<open>
  One call of \<open>renderLive\<close> (lines 201 to 221) on the canvas \<open>c\<close>, with \<open>dataArray\<close> as
  \<open>getByteFrequencyData\<close> has filled it; \<open>bufferLength\<close> is its length. The result is the
  canvas and the signal level that is set, or the exception that ends the animation.
\<close>

definition renderLive ::
  "int list list \<Rightarrow> rat \<Rightarrow> 8 word list \<Rightarrow> canvas \<Rightarrow> dom_error + (canvas \<times> rat option)" where
  "renderLive colormap sampleRate dataArray c =
     (case getImageData c 1 (int (width c) - 1) of
        Inl e \<Rightarrow> Inl e
      | Inr imageData \<Rightarrow>
          let c1 = putImageData c imageData 0;
              x = int (width c1) - 1;
              c2 = fillRect (c1\<lparr>fillStyle := black\<rparr>) x 0 1 (of_nat (height c1));
              level = signalLevelOf dataArray;
              m = maxFreqIndex sampleRate (length dataArray);
              c3 = foldl (drawBin colormap dataArray m) c2 [0..<nat m]
          in Inr (c3, level))"

text \<open>The canvas element of line 352 and the first paint of line 197.\<close>

definition liveCanvas :: canvas where
  "liveCanvas = \<lparr>width = 1200, height = 320, columns = replicate 1200 [], fillStyle = black\<rparr>"

definition initLive :: "canvas \<Rightarrow> canvas" where
  "initLive c = fillRect (c\<lparr>fillStyle := black\<rparr>) 0 0 (int (width c)) (of_nat (height c))"

text \<open>The animation: one \<open>renderLive\<close> per frame, each scheduling the next at its end, so
  an exception stops it.\<close>

fun ticks :: "int list list \<Rightarrow> rat \<Rightarrow> 8 word list list \<Rightarrow> canvas \<Rightarrow> dom_error + canvas" where
  "ticks colormap sampleRate [] c = Inr c"
| "ticks colormap sampleRate (d # ds) c =
     (case renderLive colormap sampleRate d c of
        Inl e \<Rightarrow> Inl e
      | Inr (c', level) \<Rightarrow> ticks colormap sampleRate ds c')"

text \<open>
  The words of the specification for one tick. The band of bin \<open>i\<close> ends at
  \<open>y = height - (i / maxFreqIndex) * height\<close> and is \<open>height / maxFreqIndex + 1\<close> thick, so
  its top edge is \<open>y\<close> less the thickness; its colour is the colormap's entry at the
  magnitude. \<open>paintBand\<close> paints a band on a column, \<open>clearBand\<close> is the background
  rectangle over a whole column.
\<close>

definition paintBand :: "nat \<Rightarrow> column \<Rightarrow> band \<Rightarrow> column" where
  "paintBand H col b = paint H (band_y b) (band_h b) (band_style b) col"

definition clearBand :: "nat \<Rightarrow> band" where
  "clearBand H = \<lparr>band_y = 0, band_h = of_nat H, band_style = black\<rparr>"

definition binBand :: "int list list \<Rightarrow> 8 word list \<Rightarrow> nat \<Rightarrow> int \<Rightarrow> nat \<Rightarrow> band" where
  "binBand colormap d H m i =
     \<lparr>band_y = (of_nat H - (of_nat i / of_int m) * of_nat H) - (of_nat H / of_int m + 1),
      band_h = of_nat H / of_int m + 1,
      band_style = Rgb (colormap ! unat (d ! i) ! 0) (colormap ! unat (d ! i) ! 1)
                       (colormap ! unat (d ! i) ! 2)\<rparr>"

definition nonzero_bin :: "8 word list \<Rightarrow> nat \<Rightarrow> bool" where
  "nonzero_bin d i = (i < length d \<and> 0 < d ! i)"

definition smallCanvas :: canvas where
  "smallCanvas = initLive \<lparr>width = 3, height = 4, columns = replicate 3 [], fillStyle = black\<rparr>"

subsection \<open>The static spectrogram's options\<close>

text \<open>The options of lines 88 to 96 that bound the frequency axis.\<close>

record spectrogramOptions =
  opt_height :: nat
  frequencyMin :: int
  frequencyMax :: int

definition staticSpectrogramOptions :: spectrogramOptions where
  "staticSpectrogramOptions = \<lparr>opt_height = 320, frequencyMin = 0, frequencyMax = FREQ_MAX\<rparr>"

text \<open>The upper bound of the specification: the smaller of the configured maximum and the
  Nyquist frequency, and the index of the last displayed bin that it gives.\<close>

definition axisMax_spec :: "rat \<Rightarrow> rat" where
  "axisMax_spec sampleRate = min (of_int FREQ_MAX) (sampleRate / 2)"

definition maxFreqIndex_spec :: "rat \<Rightarrow> nat \<Rightarrow> int" where
  "maxFreqIndex_spec sampleRate bufferLength =
     \<lfloor>(axisMax_spec sampleRate / (sampleRate / 2)) * of_nat bufferLength\<rfloor>"

subsection \<open>runLiveCalibration\<close>

text \<open>
  The audio graph: the nodes that the calibration creates are numbered in the order of
  their creation; \<open>Destination\<close> is \<open>ctx.destination\<close>, \<open>Analyser\<close> the node of
  \<open>analyzerRef\<close>.
\<close>

datatype node = OscillatorNode nat | GainNode nat | Destination | Analyser

record oscillator =
  osc_type :: string
  frequencyEvents :: "(int \<times> rat) list"
  startAt :: "rat option"
  stopAt :: "rat option"

text \<open>
  What one call of \<open>runLiveCalibration\<close> keeps in its closure once it has reached line 160:
  its interval (the period in milliseconds while the interval is set), its \<open>currentStep\<close>,
  and its timeout (the delay in milliseconds while the timeout is pending).
\<close>

record closure =
  interval :: "rat option"
  currentStep :: int
  timeout :: "rat option"

text \<open>
  The state that \<open>runLiveCalibration\<close> and its timers read and write: the refs, the React
  state \<open>isCalibrating\<close> and \<open>calibFreq\<close>, the audio context's state, clock and graph, the
  number of calls that are suspended at the \<open>await ctx.resume()\<close> of line 135, and the
  closures of the calls that have gone on from there, in the order in which they did.
\<close>

record player =
  audioCtxRef :: bool
  ctxSuspended :: bool
  currentTime :: rat
  analyzerRef :: bool
  isCalibrating :: bool
  calibFreq :: int
  oscillators :: "oscillator list"
  gainValues :: "rat list"
  connections :: "(node \<times> node) list"
  awaiting :: nat
  closures :: "closure list"

definition stepDuration :: rat where
  "stepDuration = 5 / 100"

text \<open>The loop of lines 153 to 157: \<open>setValueAtTime(freq, time)\<close> for each step, and the
  count of the steps.\<close>

function scheduleSweep :: "int \<Rightarrow> rat \<Rightarrow> nat \<Rightarrow> (int \<times> rat) list \<Rightarrow> nat \<times> (int \<times> rat) list" where
  "scheduleSweep freq startTime stepCount events =
     (if freq \<le> FREQ_MAX
      then scheduleSweep (freq + 200) startTime (stepCount + 1)
             (events @ [(freq, startTime + of_nat stepCount * stepDuration)])
      else (stepCount, events))"
  by pat_completeness auto
termination
  by (relation "measure (\<lambda>(freq, startTime, stepCount, events). nat (FREQ_MAX + 200 - freq))") auto

declare scheduleSweep.simps [simp del]

text \<open>
  Lines 136 to 175: what a call does once it is past the guard and the \<open>await\<close>. It sets
  the React state, builds and connects the oscillator and its gain, schedules the ramp,
  and sets its interval and its timeout.
\<close>

definition startSweep :: "player \<Rightarrow> player" where
  "startSweep s =
     (let k = length (oscillators s);
          startTime = currentTime s + 1 / 10;
          (stepCount, events) = scheduleSweep 10 startTime 0 [];
          endTime = startTime + of_nat stepCount * stepDuration;
          osc = \<lparr>osc_type = ''sine'', frequencyEvents = events,
                 startAt = Some startTime, stopAt = Some endTime\<rparr>
      in s\<lparr>isCalibrating := True,
           calibFreq := 10,
           oscillators := oscillators s @ [osc],
           gainValues := gainValues s @ [15 / 100],
           connections := connections s @
             [(OscillatorNode k, GainNode k), (GainNode k, Destination), (GainNode k, Analyser)],
           closures := closures s @
             [\<lparr>interval = Some (stepDuration * 1000), currentStep = 0,
               timeout = Some ((endTime - startTime) * 1000 + 100)\<rparr>]\<rparr>)"

text \<open>
  A call of \<open>runLiveCalibration\<close> up to the point where it gives control back: the guard
  of line 133, then line 135. With a suspended context the call stops at the \<open>await\<close> and
  is counted in \<open>awaiting\<close>; \<open>isCalibrating\<close> is not yet set. With a running context the
  call goes on to its end at once.
\<close>

definition runLiveCalibration :: "player \<Rightarrow> player" where
  "runLiveCalibration s =
     (if \<not> audioCtxRef s \<or> isCalibrating s \<or> \<not> analyzerRef s then s
      else if ctxSuspended s then s\<lparr>awaiting := awaiting s + 1\<rparr>
      else startSweep s)"

text \<open>
  The promise of \<open>ctx.resume()\<close> is fulfilled: the context runs, and one call that was
  suspended at line 135 goes on from line 136. The guard is not read again.
\<close>

definition resumeResolved :: "player \<Rightarrow> player" where
  "resumeResolved s =
     (if awaiting s = 0 then s
      else startSweep (s\<lparr>ctxSuspended := False, awaiting := awaiting s - 1\<rparr>))"

text \<open>The callback of \<open>setInterval\<close>, lines 161 to 166, of the call with closure \<open>k\<close>.\<close>

definition intervalCallback :: "nat \<Rightarrow> player \<Rightarrow> player" where
  "intervalCallback k s =
     (let c = closures s ! k;
          step = currentStep c + 1;
          currentFreq = 10 + step * 200
      in if currentFreq > FREQ_MAX
         then s\<lparr>closures := (closures s)[k := c\<lparr>currentStep := step, interval := None\<rparr>]\<rparr>
         else s\<lparr>closures := (closures s)[k := c\<lparr>currentStep := step\<rparr>],
                calibFreq := currentFreq\<rparr>)"

text \<open>The callback of \<open>setTimeout\<close>, lines 171 to 175, of the call with closure \<open>k\<close>.\<close>

definition timeoutCallback :: "nat \<Rightarrow> player \<Rightarrow> player" where
  "timeoutCallback k s =
     s\<lparr>isCalibrating := False, calibFreq := 0,
       closures := (closures s)[k := (closures s ! k)\<lparr>interval := None, timeout := None\<rparr>]\<rparr>"

text \<open>
  What can happen to the calibration: a click on the button, the fulfilment of a pending
  \<open>ctx.resume()\<close>, a firing of the interval of closure \<open>k\<close>, the firing of the timeout of
  closure \<open>k\<close>. A timer that is not set does not fire.
\<close>

datatype event = StartRequest | ResumeResolved | IntervalTick nat | TimeoutFire nat

fun step :: "player \<Rightarrow> event \<Rightarrow> player" where
  "step s StartRequest = runLiveCalibration s"
| "step s ResumeResolved = resumeResolved s"
| "step s (IntervalTick k) =
     (if k < length (closures s) \<and> interval (closures s ! k) \<noteq> None
      then intervalCallback k s else s)"
| "step s (TimeoutFire k) =
     (if k < length (closures s) \<and> timeout (closures s ! k) \<noteq> None
      then timeoutCallback k s else s)"

text \<open>The states passed through by a list of events, the state before the first event
  excluded.\<close>

fun run :: "player \<Rightarrow> event list \<Rightarrow> player list" where
  "run s [] = []"
| "run s (e # es) = step s e # run (step s e) es"

text \<open>
  The timers of the sweep started last, as the clock orders them: the interval fires every
  \<open>interval\<close> milliseconds, the timeout once after \<open>timeout\<close> milliseconds, so that
  \<open>\<lfloor>timeout / interval\<rfloor>\<close> firings of the interval come before the timeout.
\<close>

definition sweepTimers :: "player \<Rightarrow> event list" where
  "sweepTimers s =
     (if closures s = [] then []
      else let k = length (closures s) - 1; c = closures s ! k
           in case (interval c, timeout c) of
                (Some period, Some delay) \<Rightarrow>
                  replicate (nat \<lfloor>delay / period\<rfloor>) (IntervalTick k) @ [TimeoutFire k]
              | _ \<Rightarrow> [])"

text \<open>
  One whole sweep from \<open>s\<close>: the click, the fulfilment of \<open>ctx.resume()\<close> where the context
  was suspended, and the timers of the sweep as the clock orders them. The list holds the
  state in which the sweep has started and the state after each timer event.
\<close>

definition sweep :: "player \<Rightarrow> player list" where
  "sweep s =
     (let s0 = runLiveCalibration s;
          s1 = (if ctxSuspended s then resumeResolved s0 else s0)
      in s1 # run s1 (sweepTimers s1))"

text \<open>A player in microphone mode before any calibration, with a running audio context,
  and the same with a suspended one.\<close>

definition idlePlayer :: player where
  "idlePlayer =
     \<lparr>audioCtxRef = True, ctxSuspended = False, currentTime = 0, analyzerRef = True,
      isCalibrating = False, calibFreq = 0, oscillators = [], gainValues = [],
      connections = [], awaiting = 0, closures = []\<rparr>"

definition suspendedPlayer :: player where
  "suspendedPlayer = idlePlayer\<lparr>ctxSuspended := True\<rparr>"

text \<open>Two clicks on the button while the context is suspended, then the fulfilment of the
  two pending calls of \<open>ctx.resume()\<close>: the states after each of the four events.\<close>

definition doubleStart :: "player list" where
  "doubleStart = run suspendedPlayer [StartRequest, StartRequest, ResumeResolved, ResumeResolved]"

text \<open>The guard of line 133 lets a start request through.\<close>

definition canStart :: "player \<Rightarrow> bool" where
  "canStart s = (audioCtxRef s \<and> \<not> isCalibrating s \<and> analyzerRef s)"

text \<open>No call is suspended at the \<open>await\<close> and no timer of an earlier call is set: the
  player between two sweeps.\<close>

definition settled :: "player \<Rightarrow> bool" where
  "settled s =
     (awaiting s = 0 \<and> (\<forall>c \<in> set (closures s). interval c = None \<and> timeout c = None))"

text \<open>
  The invariant of a player that runs at most one sweep at a time: the context runs and
  no call is suspended; only the closure made last can have a timer set, and only while
  the sweep runs; while it runs, its timeout is pending and the value shown is the one of
  the last step that did not pass the maximum.
\<close>

definition display_inv :: "player \<Rightarrow> bool" where
  "display_inv s =
     (\<not> ctxSuspended s \<and> awaiting s = 0
      \<and> (\<forall>k. Suc k < length (closures s) \<longrightarrow>
             interval (closures s ! k) = None \<and> timeout (closures s ! k) = None)
      \<and> (if isCalibrating s
          then closures s \<noteq> [] \<and> timeout (last (closures s)) \<noteq> None
               \<and> 0 \<le> currentStep (last (closures s))
               \<and> calibFreq s = 10 + 200 * min (currentStep (last (closures s))) 59
          else \<forall>c \<in> set (closures s). interval c = None \<and> timeout c = None))"

text \<open>The number of steps by the formula of the specification,
  \<open>ceil((12000 - 10) / 200) + 1\<close>.\<close>

definition steps_by_spec :: nat where
  "steps_by_spec = nat \<lceil>(12000 - 10) / (200 :: rat)\<rceil> + 1"

subsection \<open>takeSnapshot\<close>

text \<open>
  The canvases a snapshot can be taken of, and what the component has mounted. By the JSX
  of lines 278 to 355 the live canvas is mounted exactly when a microphone stream is
  present, and the container of the static spectrogram exactly when there is a track and no
  stream; whether the spectrogram plugin has put a canvas into that container is
  \<open>pluginCanvas\<close>.
\<close>

datatype surface = LiveCanvas | SpectrogramCanvas

record view =
  track :: "AudioFile option"
  micStream :: bool
  pluginCanvas :: bool

definition liveCanvasRef :: "view \<Rightarrow> surface option" where
  "liveCanvasRef v = (if micStream v then Some LiveCanvas else None)"

definition spectrogramRef :: "view \<Rightarrow> bool" where
  "spectrogramRef v = (\<not> micStream v \<and> track v \<noteq> None)"

text \<open>\<open>spectrogramRef.current?.querySelector('canvas')\<close>.\<close>

definition querySpectrogramCanvas :: "view \<Rightarrow> surface option" where
  "querySpectrogramCanvas v =
     (if spectrogramRef v \<and> pluginCanvas v then Some SpectrogramCanvas else None)"

text \<open>A download started by \<open>link.click()\<close>: the file name and the canvas whose PNG encoding
  (\<open>toDataURL('image/png')\<close>) is its content.\<close>

record download =
  dl_name :: string
  dl_png_of :: surface

text \<open>Line 227: the canvas of the active mode, if there is one.\<close>

definition targetCanvas :: "view \<Rightarrow> surface option" where
  "targetCanvas v = (if micStream v then liveCanvasRef v else querySpectrogramCanvas v)"

text \<open>\<open>track?.name || 'live'\<close>.\<close>

definition trackNameOrLive :: "view \<Rightarrow> string" where
  "trackNameOrLive v = or_else (case track v of None \<Rightarrow> [] | Some t \<Rightarrow> af_name t) ''live''"

text \<open>Lines 226 to 233; \<open>now\<close> is \<open>Date.now()\<close>. The result lists the downloads started.\<close>

definition takeSnapshot :: "view \<Rightarrow> nat \<Rightarrow> download list" where
  "takeSnapshot v now =
     (case targetCanvas v of
        None \<Rightarrow> []
      | Some cv \<Rightarrow>
          [\<lparr>dl_name = ''spectrogram-'' @ trackNameOrLive v @ ''-'' @ toString now @ ''.png'',
            dl_png_of = cv\<rparr>])"

text \<open>The file name pattern of the specification:
  \<open>spectrogram-<trackNameOrLive>-<unixTimestampMillis>.png\<close>.\<close>

definition is_digit :: "char \<Rightarrow> bool" where
  "is_digit ch = (48 \<le> (of_char ch :: nat) \<and> (of_char ch :: nat) \<le> 57)"

definition snapshot_name :: "string \<Rightarrow> string \<Rightarrow> bool" where
  "snapshot_name nameOrLive n =
     (\<exists>ts. n = ''spectrogram-'' @ nameOrLive @ ''-'' @ ts @ ''.png''
           \<and> ts \<noteq> [] \<and> (\<forall>ch \<in> set ts. is_digit ch))"

subsection \<open>initWaveSurfer\<close>

text \<open>
  The container of the waveform is mounted with that of the static spectrogram (lines 327
  and 354). \<open>initWaveSurfer\<close> (lines 67 to 104) returns at line 68 when a container is
  missing or a microphone stream is present; otherwise it creates the spectrogram plugin
  with the options of lines 88 to 96. The result is the options passed, if any.
\<close>

definition waveformRef :: "view \<Rightarrow> bool" where
  "waveformRef v = (\<not> micStream v \<and> track v \<noteq> None)"

definition initWaveSurfer :: "view \<Rightarrow> spectrogramOptions option" where
  "initWaveSurfer v =
     (if \<not> waveformRef v \<or> \<not> spectrogramRef v \<or> micStream v then None
      else Some staticSpectrogramOptions)"

text \<open>A view in file mode: a track is selected and no microphone stream is present.\<close>

definition fileView :: view where
  "fileView = \<lparr>track = Some (toAudioFile ''id'' (hd exampleFiles)), micStream = False,
                pluginCanvas = True\<rparr>"

section \<open>Local file service: results\<close>

lemma mset_insert_cmp: "mset (insert_cmp cmp x xs) = add_mset x (mset xs)"
  by (induction xs) auto

lemma mset_array_sort: "mset (array_sort cmp xs) = mset xs"
  unfolding array_sort_def by (induction xs) (auto simp: mset_insert_cmp)

lemma set_insert_cmp: "set (insert_cmp cmp x xs) = insert x (set xs)"
  by (induction xs) auto

lemma sorted_insert_cmp:
  assumes tot: "\<And>a b. cmp a b \<le> 0 \<or> cmp b a \<le> 0"
    and trans: "\<And>a b c. cmp a b \<le> 0 \<Longrightarrow> cmp b c \<le> 0 \<Longrightarrow> cmp a c \<le> 0"
    and srt: "sorted_wrt (\<lambda>a b. cmp a b \<le> 0) xs"
  shows "sorted_wrt (\<lambda>a b. cmp a b \<le> 0) (insert_cmp cmp x xs)"
  using srt
proof (induction xs)
  case Nil
  then show ?case by simp
next
  case (Cons y ys)
  show ?case
  proof (cases "cmp x y \<le> 0")
    case True
    then have "\<forall>z\<in>set ys. cmp x z \<le> 0"
      using Cons.prems trans by auto
    with True Cons.prems show ?thesis by simp
  next
    case False
    then have yx: "cmp y x \<le> 0" using tot [of x y] by simp
    from Cons have "sorted_wrt (\<lambda>a b. cmp a b \<le> 0) (insert_cmp cmp x ys)" by simp
    with False yx Cons.prems show ?thesis
      by (auto simp: set_insert_cmp)
  qed
qed

lemma sorted_array_sort:
  assumes tot: "\<And>a b. cmp a b \<le> 0 \<or> cmp b a \<le> 0"
    and trans: "\<And>a b c. cmp a b \<le> 0 \<Longrightarrow> cmp b c \<le> 0 \<Longrightarrow> cmp a c \<le> 0"
  shows "sorted_wrt (\<lambda>a b. cmp a b \<le> 0) (array_sort cmp xs)"
proof (induction xs)
  case Nil
  then show ?case by (simp add: array_sort_def)
next
  case (Cons x xs)
  have "array_sort cmp (x # xs) = insert_cmp cmp x (array_sort cmp xs)"
    by (simp add: array_sort_def)
  then show ?case
    using sorted_insert_cmp [of cmp "array_sort cmp xs" x] tot trans Cons.IH by simp
qed

lemma map_file_collect: "map af_file (collect uuids k fs) = filter isMp3 fs"
  by (induction fs arbitrary: k) (auto simp: toAudioFile_def)

lemma collect_fields:
  "a \<in> set (collect uuids k fs) \<Longrightarrow>
     af_name a = file_name (af_file a) \<and> af_size a = toString (file_size (af_file a))"
  by (induction fs arbitrary: k) (auto simp: toAudioFile_def split: if_splits)

lemma codeCompare_le_iff: "codeCompare a b \<le> 0 \<longleftrightarrow> (map (of_char :: char \<Rightarrow> nat) a, map of_char b) \<in> lexord {(x, y). x < y} \<or> a = b"
  by (induction a b rule: codeCompare.induct) auto

lemma codeCompare_consistent: "consistent_compare codeCompare"
proof -
  let ?r = "{(x :: nat, y). x < y}"
  have lin: "\<And>x y. (x, y) \<in> lexord ?r \<or> x = y \<or> (y, x) \<in> lexord ?r"
    by (rule lexord_linear) auto
  have tr: "\<And>x y z. (x, y) \<in> lexord ?r \<Longrightarrow> (y, z) \<in> lexord ?r \<Longrightarrow> (x, z) \<in> lexord ?r"
    by (rule lexord_trans) (auto simp: trans_def)
  have inj: "\<And>a b. map (of_char :: char \<Rightarrow> nat) a = map of_char b \<Longrightarrow> a = b"
    by (simp add: inj_map_eq_map inj_def)
  show ?thesis
    unfolding consistent_compare_def codeCompare_le_iff
    using lin tr inj by blast
qed


lemma parseDecimal_toString: "parseDecimal (toString n) = n"
proof (induction n rule: toString.induct)
  case (1 n)
  show ?case
  proof (cases "n < 10")
    case True
    then show ?thesis
      by (subst toString.simps) (simp add: parseDecimal_def digit_val_def digit_char_def)
  next
    case False
    with 1 have "parseDecimal (toString (n div 10)) = n div 10" by simp
    with False show ?thesis
      by (subst toString.simps) (simp add: parseDecimal_def digit_val_def digit_char_def)
  qed
qed

lemma endsWith_iff: "endsWith s suf \<longleftrightarrow> (\<exists>stem. s = stem @ suf)"
proof
  assume "endsWith s suf"
  then have "take (length suf) (rev s) = rev suf" by (simp add: endsWith_def)
  then have "rev s = rev suf @ drop (length suf) (rev s)"
    by (metis append_take_drop_id)
  then have "s = rev (drop (length suf) (rev s)) @ suf"
    by (metis rev_append rev_rev_ident)
  then show "\<exists>stem. s = stem @ suf" ..
next
  assume "\<exists>stem. s = stem @ suf"
  then show "endsWith s suf" by (auto simp: endsWith_def)
qed


lemma of_char_lower_char:
  "(of_char (lower_char c) :: nat) =
     (if 65 \<le> (of_char c :: nat) \<and> (of_char c :: nat) \<le> 90 then of_char c + 32 else of_char c)"
  by (simp add: lower_char_def Let_def)

lemma lower_char_eq_iff:
  "lower_char c = d \<longleftrightarrow>
     (if 65 \<le> (of_char c :: nat) \<and> (of_char c :: nat) \<le> 90
      then (of_char c :: nat) + 32 = of_char d else c = d)"
proof -
  have "lower_char c = d \<longleftrightarrow> (of_char (lower_char c) :: nat) = of_char d"
    by simp
  then show ?thesis
    by (simp add: of_char_lower_char)
qed

lemma char_eq_code: "c = d \<longleftrightarrow> (of_char c :: nat) = of_char d"
  by simp

lemma lower_char_m: "lower_char c = CHR ''m'' \<longleftrightarrow> c = CHR ''m'' \<or> c = CHR ''M''"
  unfolding lower_char_eq_iff
  by (auto simp: char_eq_code [of c])

lemma lower_char_p: "lower_char c = CHR ''p'' \<longleftrightarrow> c = CHR ''p'' \<or> c = CHR ''P''"
  unfolding lower_char_eq_iff
  by (auto simp: char_eq_code [of c])

lemma lower_char_dot: "lower_char c = CHR ''.'' \<longleftrightarrow> c = CHR ''.''"
  unfolding lower_char_eq_iff
  by (auto simp: char_eq_code [of c])

lemma lower_char_3: "lower_char c = CHR ''3'' \<longleftrightarrow> c = CHR ''3''"
  unfolding lower_char_eq_iff
  by (auto simp: char_eq_code [of c])

lemma lower_ext_iff:
  "map lower_char ext = [CHR ''.'', CHR ''m'', CHR ''p'', CHR ''3''] \<longleftrightarrow>
     (\<exists>b c. ext = [CHR ''.'', b, c, CHR ''3''] \<and> (b = CHR ''m'' \<or> b = CHR ''M'')
         \<and> (c = CHR ''p'' \<or> c = CHR ''P''))"
  (is "?L \<longleftrightarrow> ?R")
proof
  assume ?L
  then obtain a b c d where e: "ext = [a, b, c, d]"
    and l: "lower_char a = CHR ''.''" "lower_char b = CHR ''m''"
       "lower_char c = CHR ''p''" "lower_char d = CHR ''3''"
    by (auto simp only: map_eq_Cons_conv list.map_disc_iff)
  from l have "a = CHR ''.''" "d = CHR ''3''" "b = CHR ''m'' \<or> b = CHR ''M''" "c = CHR ''p'' \<or> c = CHR ''P''"
    by (simp_all only: lower_char_m lower_char_p lower_char_dot lower_char_3)
  with e show ?R by blast
next
  assume ?R
  then obtain b c where e: "ext = [CHR ''.'', b, c, CHR ''3'']"
    and "lower_char b = CHR ''m''" "lower_char c = CHR ''p''"
    unfolding lower_char_m lower_char_p by blast
  moreover have "lower_char CHR ''.'' = CHR ''.''" "lower_char CHR ''3'' = CHR ''3''"
    by (simp_all only: lower_char_dot lower_char_3)
  ultimately show ?L by (simp only: list.map)
qed


lemma endsWith_map_iff:
  "endsWith (map f n) suf \<longleftrightarrow> (\<exists>stem ext. n = stem @ ext \<and> map f ext = suf)"
proof
  assume "endsWith (map f n) suf"
  then obtain stem where "map f n = stem @ suf" unfolding endsWith_iff ..
  then obtain a b where "n = a @ b" "map f b = suf"
    by (auto simp: map_eq_append_conv)
  then show "\<exists>stem ext. n = stem @ ext \<and> map f ext = suf" by blast
next
  assume "\<exists>stem ext. n = stem @ ext \<and> map f ext = suf"
  then obtain a b where "n = a @ b" "map f b = suf" by blast
  then have "map f n = map f a @ suf" by simp
  then show "endsWith (map f n) suf" unfolding endsWith_iff ..
qed

lemma mp3_by_name_iff: "endsWith (toLowerCase n) ''.mp3'' \<longleftrightarrow> mp3_by_name n"
  unfolding toLowerCase_def endsWith_map_iff mp3_by_name_def lower_ext_iff by blast

lemma isMp3_accepted: "isMp3 = accepted"
  by (rule ext) (simp only: isMp3_def accepted_def mp3_by_name_iff)


text \<open>
  Claim C10. For every file list and every consistent collation, \<open>processLocalFiles\<close>
  returns exactly the accepted files, each as often as it occurs in the list (an accepted
  file has a name ending in \<open>.mp3\<close> in any letter case, or the MIME type
  \<open>audio/mpeg\<close>); no other file appears. Each result carries the name of its source
  file and the decimal notation of its size, from which the size is read back. The result
  is in ascending order of the names under the collation.
\<close>

theorem processLocalFiles_selects_and_sorts:
  assumes "consistent_compare localeCompare"
  shows "mset (map af_file (processLocalFiles localeCompare uuids fileList))
           = mset (filter accepted fileList)
       \<and> (\<forall>a \<in> set (processLocalFiles localeCompare uuids fileList).
            accepted (af_file a) \<and> af_file a \<in> set fileList
          \<and> af_name a = file_name (af_file a)
          \<and> af_size a = toString (file_size (af_file a))
          \<and> parseDecimal (af_size a) = file_size (af_file a))
       \<and> sorted_wrt (\<lambda>a b. localeCompare (af_name a) (af_name b) \<le> 0)
            (processLocalFiles localeCompare uuids fileList)"
proof -
  let ?cmp = "\<lambda>a b. localeCompare (af_name a) (af_name b)"
  let ?R = "processLocalFiles localeCompare uuids fileList"
  have ms: "mset ?R = mset (collect uuids 0 fileList)"
    by (simp add: processLocalFiles_def mset_array_sort)
  have "mset (map af_file ?R) = image_mset af_file (mset ?R)" by simp
  also have "\<dots> = mset (map af_file (collect uuids 0 fileList))"
    by (simp only: ms mset_map)
  finally have perm: "mset (map af_file ?R) = mset (filter accepted fileList)"
    by (simp only: map_file_collect isMp3_accepted)
  have st: "set ?R = set (collect uuids 0 fileList)"
    using ms by (rule mset_eq_setD)
  have fields: "\<forall>a \<in> set ?R. accepted (af_file a) \<and> af_file a \<in> set fileList
          \<and> af_name a = file_name (af_file a)
          \<and> af_size a = toString (file_size (af_file a))
          \<and> parseDecimal (af_size a) = file_size (af_file a)"
  proof
    fix a assume a: "a \<in> set ?R"
    then have "af_file a \<in> set (map af_file ?R)" by simp
    then have "af_file a \<in> set (filter accepted fileList)"
      using perm by (metis set_mset_mset)
    moreover from a st have "a \<in> set (collect uuids 0 fileList)" by simp
    then have "af_name a = file_name (af_file a) \<and> af_size a = toString (file_size (af_file a))"
      by (rule collect_fields)
    ultimately show "accepted (af_file a) \<and> af_file a \<in> set fileList
          \<and> af_name a = file_name (af_file a)
          \<and> af_size a = toString (file_size (af_file a))
          \<and> parseDecimal (af_size a) = file_size (af_file a)"
      by (simp add: parseDecimal_toString)
  qed
  have tot: "\<And>a b. ?cmp a b \<le> 0 \<or> ?cmp b a \<le> 0"
    using assms unfolding consistent_compare_def by blast
  have trans: "\<And>a b c. ?cmp a b \<le> 0 \<Longrightarrow> ?cmp b c \<le> 0 \<Longrightarrow> ?cmp a c \<le> 0"
    using assms unfolding consistent_compare_def by blast
  have "sorted_wrt (\<lambda>a b. ?cmp a b \<le> 0) (array_sort ?cmp (collect uuids 0 fileList))"
    using tot trans by (rule sorted_array_sort)
  then have "sorted_wrt (\<lambda>a b. ?cmp a b \<le> 0) ?R"
    by (simp only: processLocalFiles_def)
  with perm fields show ?thesis by blast
qed


lemma example_run:
  "map af_name (processLocalFiles codeCompare (\<lambda>k. ''u'') exampleFiles) = [''a'', ''b.MP3'']"
  by code_simp

theorem processLocalFiles_selects_and_sorts_witness:
  "consistent_compare codeCompare
   \<and> map af_name (processLocalFiles codeCompare (\<lambda>k. ''u'') exampleFiles) = [''a'', ''b.MP3'']
   \<and> sorted_wrt (\<lambda>a b. codeCompare (af_name a) (af_name b) \<le> 0)
            (processLocalFiles codeCompare (\<lambda>k. ''u'') exampleFiles)"
proof -
  note t = processLocalFiles_selects_and_sorts [OF codeCompare_consistent, of "\<lambda>k. ''u''" exampleFiles]
  from t have "sorted_wrt (\<lambda>a b. codeCompare (af_name a) (af_name b) \<le> 0)
            (processLocalFiles codeCompare (\<lambda>k. ''u'') exampleFiles)"
    by (rule conjunct2 [THEN conjunct2])
  with codeCompare_consistent example_run show ?thesis by (intro conjI)
qed


section \<open>Live waterfall: results\<close>

subsection \<open>Arithmetic on rationals\<close>

lemma floor_rat_divide_numeral [simp]:
  "\<lfloor>(numeral a :: rat) / numeral b\<rfloor> = numeral a div numeral b"
  by (metis floor_divide_of_int_eq of_int_numeral)

lemma floor_rat_one_divide_numeral [simp]:
  "\<lfloor>(1 :: rat) / numeral b\<rfloor> = 1 div numeral b"
  by (metis floor_divide_of_int_eq of_int_numeral of_int_1)

subsection \<open>The canvas operations on whole columns\<close>

lemma map_enumerate_nth:
  "k < length xs \<Longrightarrow> map (\<lambda>(k, col). f k col) (enumerate 0 xs) ! k = f k (xs ! k)"
  by (simp add: nth_enumerate_eq)

lemma update_last_column:
  assumes "xs \<noteq> []"
  shows "map (\<lambda>(k, col). if int (length xs) - 1 \<le> int k \<and> int k < int (length xs) - 1 + 1
                          then g col else col) (enumerate 0 xs)
         = butlast xs @ [g (last xs)]"
proof (rule nth_equalityI)
  show "length (map (\<lambda>(k, col). if int (length xs) - 1 \<le> int k \<and> int k < int (length xs) - 1 + 1
                          then g col else col) (enumerate 0 xs)) = length (butlast xs @ [g (last xs)])"
    using assms by simp
next
  fix i
  assume "i < length (map (\<lambda>(k, col). if int (length xs) - 1 \<le> int k \<and> int k < int (length xs) - 1 + 1
                          then g col else col) (enumerate 0 xs))"
  then have i: "i < length xs" by simp
  show "map (\<lambda>(k, col). if int (length xs) - 1 \<le> int k \<and> int k < int (length xs) - 1 + 1
                          then g col else col) (enumerate 0 xs) ! i = (butlast xs @ [g (last xs)]) ! i"
  proof (cases "i = length xs - 1")
    case True
    with i have ii: "int i = int (length xs) - 1" by auto
    have "(butlast xs @ [g (last xs)]) ! i = g (xs ! i)"
      using True assms by (simp add: nth_append last_conv_nth)
    with i ii show ?thesis
      by (simp add: nth_enumerate_eq)
  next
    case False
    with i have lt: "i < length xs - 1" by simp
    then have ii: "int i < int (length xs) - 1" by auto
    have "(butlast xs @ [g (last xs)]) ! i = xs ! i"
      using lt by (simp add: nth_append nth_butlast)
    with i ii show ?thesis
      by (simp add: nth_enumerate_eq)
  qed
qed

lemma fillRect_last:
  assumes "length (columns c) = width c" "0 < width c"
  shows "fillRect c (int (width c) - 1) y 1 h
         = c\<lparr>columns := butlast (columns c) @ [paint (height c) y h (fillStyle c) (last (columns c))]\<rparr>"
proof -
  from assms have ne: "columns c \<noteq> []" by auto
  show ?thesis
    unfolding fillRect_def
    using update_last_column [OF ne, of "paint (height c) y h (fillStyle c)"] assms
    by simp
qed

lemma getImageData_shift:
  assumes "length (columns c) = width c" "1 < width c" "0 < height c"
  shows "getImageData c 1 (int (width c) - 1) = Inr (tl (columns c))"
proof -
  have "map (\<lambda>x. if 0 \<le> x \<and> x < int (length (columns c)) then columns c ! nat x else [])
          [1..1 + (int (width c) - 1) - 1] = tl (columns c)"
  proof (rule nth_equalityI)
    show "length (map (\<lambda>x. if 0 \<le> x \<and> x < int (length (columns c)) then columns c ! nat x else [])
          [1..1 + (int (width c) - 1) - 1]) = length (tl (columns c))"
      using assms by simp
  next
    fix i
    assume "i < length (map (\<lambda>x. if 0 \<le> x \<and> x < int (length (columns c)) then columns c ! nat x else [])
          [1..1 + (int (width c) - 1) - 1])"
    then have i: "Suc i < width c" using assms by simp
    then have "[1..1 + (int (width c) - 1) - 1] ! i = 1 + int i"
      by simp
    with i assms show "map (\<lambda>x. if 0 \<le> x \<and> x < int (length (columns c)) then columns c ! nat x else [])
          [1..1 + (int (width c) - 1) - 1] ! i = tl (columns c) ! i"
      by (simp add: nth_tl nat_add_distrib)
  qed
  with assms show ?thesis
    by (simp add: getImageData_def)
qed

lemma putImageData_shift:
  assumes "length (columns c) = width c" "0 < width c"
  shows "putImageData c (tl (columns c)) 0 = c\<lparr>columns := tl (columns c) @ [last (columns c)]\<rparr>"
proof -
  have "map (\<lambda>(k, col). if 0 \<le> int k \<and> int k < 0 + int (length (tl (columns c)))
                          then tl (columns c) ! nat (int k - 0) else col)
             (enumerate 0 (columns c)) = tl (columns c) @ [last (columns c)]"
  proof (rule nth_equalityI)
    show "length (map (\<lambda>(k, col). if 0 \<le> int k \<and> int k < 0 + int (length (tl (columns c)))
                          then tl (columns c) ! nat (int k - 0) else col)
             (enumerate 0 (columns c))) = length (tl (columns c) @ [last (columns c)])"
      using assms by simp
  next
    fix i
    assume "i < length (map (\<lambda>(k, col). if 0 \<le> int k \<and> int k < 0 + int (length (tl (columns c)))
                          then tl (columns c) ! nat (int k - 0) else col)
             (enumerate 0 (columns c)))"
    then have i: "i < length (columns c)" by simp
    from assms have ne: "columns c \<noteq> []" by auto
    show "map (\<lambda>(k, col). if 0 \<le> int k \<and> int k < 0 + int (length (tl (columns c)))
                          then tl (columns c) ! nat (int k - 0) else col)
             (enumerate 0 (columns c)) ! i = (tl (columns c) @ [last (columns c)]) ! i"
    proof (cases "i < length (columns c) - 1")
      case True
      then have ii: "int i < int (length (columns c)) - 1" by auto
      have "(tl (columns c) @ [last (columns c)]) ! i = columns c ! Suc i"
        using True by (simp add: nth_append nth_tl)
      with i ii True show ?thesis by (simp add: nth_enumerate_eq nth_tl)
    next
      case False
      with i have e: "i = length (columns c) - 1" by simp
      with i have ii: "\<not> int i < int (length (columns c)) - 1" by auto
      have "(tl (columns c) @ [last (columns c)]) ! i = columns c ! i"
        using e ne by (simp add: nth_append last_conv_nth)
      with i ii show ?thesis
        by (simp add: nth_enumerate_eq)
    qed
  qed
  then show ?thesis by (simp add: putImageData_def)
qed



lemma drawBin_columns:
  assumes "length (columns c) = width c" "0 < width c"
  shows "drawBin cm d m c i =
           c\<lparr>columns := butlast (columns c) @
                [if nonzero_bin d i then paintBand (height c) (last (columns c)) (binBand cm d (height c) m i)
                 else last (columns c)],
             fillStyle := (if nonzero_bin d i then band_style (binBand cm d (height c) m i)
                           else fillStyle c)\<rparr>"
proof (cases "nonzero_bin d i")
  case True
  let ?c1 = "c\<lparr>fillStyle := Rgb (cm ! unat (d ! i) ! 0) (cm ! unat (d ! i) ! 1) (cm ! unat (d ! i) ! 2)\<rparr>"
  have "fillRect ?c1 (int (width ?c1) - 1) (bandY (height c) m i - bandHeight (height c) m) 1
           (bandHeight (height c) m)
        = ?c1\<lparr>columns := butlast (columns ?c1) @
             [paint (height ?c1) (bandY (height c) m i - bandHeight (height c) m)
                 (bandHeight (height c) m) (fillStyle ?c1) (last (columns ?c1))]\<rparr>"
    by (rule fillRect_last) (use assms in simp_all)
  with True show ?thesis
    by (simp add: drawBin_def dataAt_def nonzero_bin_def Let_def paintBand_def binBand_def
          bandY_def bandHeight_def)
next
  case False
  from assms have "columns c \<noteq> []" by auto
  then have "butlast (columns c) @ [last (columns c)] = columns c" by simp
  with False show ?thesis
    by (auto simp: drawBin_def dataAt_def nonzero_bin_def)
qed

lemma foldl_drawBin:
  assumes "length (columns c) = width c" "0 < width c"
  shows "width (foldl (drawBin cm d m) c is) = width c
       \<and> height (foldl (drawBin cm d m) c is) = height c
       \<and> columns (foldl (drawBin cm d m) c is)
           = butlast (columns c) @
               [foldl (paintBand (height c)) (last (columns c))
                  (map (binBand cm d (height c) m) (filter (nonzero_bin d) is))]"
  using assms
proof (induction "is" arbitrary: c)
  case Nil
  then have "columns c \<noteq> []" by auto
  then show ?case by simp
next
  case (Cons i "is")
  let ?c' = "drawBin cm d m c i"
  have step: "?c' =
           c\<lparr>columns := butlast (columns c) @
                [if nonzero_bin d i then paintBand (height c) (last (columns c)) (binBand cm d (height c) m i)
                 else last (columns c)],
             fillStyle := (if nonzero_bin d i then band_style (binBand cm d (height c) m i)
                           else fillStyle c)\<rparr>"
    using Cons.prems by (rule drawBin_columns)
  have w: "width ?c' = width c" and h: "height ?c' = height c"
    and len: "length (columns ?c') = width ?c'"
    using Cons.prems by (simp_all add: step)
  have bl: "butlast (columns ?c') = butlast (columns c)"
    and la: "last (columns ?c') = (if nonzero_bin d i then paintBand (height c) (last (columns c)) (binBand cm d (height c) m i)
                 else last (columns c))"
    by (simp_all add: step)
  from Cons.prems w have pos: "0 < width ?c'" by simp
  note ih = Cons.IH [OF len pos]
  show ?case
    using ih by (simp only: foldl_Cons w h bl la) simp
qed


lemma renderLive_columns:
  assumes wf: "length (columns c) = width c" and w: "1 < width c" and h: "0 < height c"
  shows "\<exists>c'. renderLive cm sr d c = Inr (c', signalLevelOf d)
           \<and> width c' = width c \<and> height c' = height c
           \<and> columns c' = tl (columns c) @
               [foldl (paintBand (height c)) []
                  (clearBand (height c) #
                   map (binBand cm d (height c) (maxFreqIndex sr (length d)))
                     (filter (nonzero_bin d) [0..<nat (maxFreqIndex sr (length d))]))]"
proof -
  let ?m = "maxFreqIndex sr (length d)"
  let ?c1 = "c\<lparr>columns := tl (columns c) @ [last (columns c)]\<rparr>"
  let ?c1b = "?c1\<lparr>fillStyle := black\<rparr>"
  let ?c2 = "?c1b\<lparr>columns := butlast (columns ?c1b) @
              [paint (height ?c1b) 0 (of_nat (height c)) (fillStyle ?c1b) (last (columns ?c1b))]\<rparr>"
  from w have w0: "0 < width c" by simp
  have g: "getImageData c 1 (int (width c) - 1) = Inr (tl (columns c))"
    using wf w h by (rule getImageData_shift)
  have p: "putImageData c (tl (columns c)) 0 = ?c1"
    using wf w0 by (rule putImageData_shift)
  have "fillRect ?c1b (int (width ?c1b) - 1) 0 1 (of_nat (height c)) = ?c2"
    by (rule fillRect_last) (use wf w0 in simp_all)
  then have f: "fillRect ?c1b (int (width c) - 1) 0 1 (of_nat (height c)) = ?c2"
    by simp
  have pc: "paint (height c) 0 (of_nat (height c)) black (last (columns c)) = [clearBand (height c)]"
    using h by (simp add: paint_def clearBand_def Let_def)
  have cols2: "columns ?c2 = tl (columns c) @ [[clearBand (height c)]]"
    using pc by simp
  have len2: "length (columns ?c2) = width ?c2" using wf w0 by simp
  have pos2: "0 < width ?c2" using w0 by simp
  note fd = foldl_drawBin [OF len2 pos2, of cm d ?m "[0..<nat ?m]"]
  have first: "foldl (paintBand (height c)) [] [clearBand (height c)] = [clearBand (height c)]"
    using h by (simp add: paintBand_def paint_def clearBand_def Let_def)
  have r: "renderLive cm sr d c = Inr (foldl (drawBin cm d ?m) ?c2 [0..<nat ?m], signalLevelOf d)"
    by (simp add: renderLive_def g p f Let_def)
  show ?thesis
    using fd first by (simp add: r pc)
qed


subsection \<open>One tick\<close>

lemma smallCanvas_eval:
  "smallCanvas = \<lparr>width = 3, height = 4,
      columns = [[clearBand 4], [clearBand 4], [clearBand 4]], fillStyle = black\<rparr>"
  by (simp add: smallCanvas_def initLive_def fillRect_def paint_def clearBand_def Let_def
        numeral_3_eq_3)

lemma colormap_3: "generateBirdSongColormap ! 3 = [2, 0, 5]"
  by (simp add: generateBirdSongColormap_def colormapEntry_def keyPoints_def channel_def
        Math_round_def Let_def)

lemma example_column:
  "foldl (paintBand 4) []
     (clearBand 4 #
      map (binBand generateBirdSongColormap [0, 3, 0, 255] 4
             \<lfloor>of_int FREQ_MAX / ((48000::rat) / 2) * of_nat (length [0::8 word, 3, 0, 255])\<rfloor>)
        (filter (nonzero_bin [0, 3, 0, 255])
           [0..<nat \<lfloor>of_int FREQ_MAX / ((48000::rat) / 2)
                       * of_nat (length [0::8 word, 3, 0, 255])\<rfloor>]))
   = [clearBand 4, \<lparr>band_y = - 1, band_h = 3, band_style = Rgb 2 0 5\<rparr>]"
  by (simp add: FREQ_MAX_def nonzero_bin_def binBand_def colormap_3 paintBand_def paint_def
        clearBand_def Let_def upt_rec)

text \<open>
  Claim C1. On a canvas at least two columns wide and one pixel high, with a positive
  sample rate, one call of \<open>renderLive\<close> succeeds and leaves the width and height as they
  were. (1) The columns but the last are the old columns but the first: everything moved
  one column to the left and the old leftmost column is gone. (2), (3) The last column is
  what painting gives on an empty column when the background rectangle over the whole
  column is painted first and then, for each bin \<open>i\<close> below
  \<open>maxFreqIndex = \<lfloor>FREQ_MAX / nyquist * frequencyBinCount\<rfloor>\<close> in ascending order whose magnitude
  exists and is positive, and for no other bin, the band that ends at
  \<open>y = height - (i / maxFreqIndex) * height\<close>, is \<open>height / maxFreqIndex + 1\<close> thick and has the
  colour \<open>colormap[magnitude[i]]\<close>. The bins run over \<open>0 \<le> i < maxFreqIndex\<close>.
\<close>

theorem renderLive_tick:
  assumes "length (columns c) = width c" and "1 < width c" and "0 < height c"
    and "0 < sampleRate"
  shows "\<exists>c'. renderLive colormap sampleRate d c = Inr (c', signalLevelOf d)
           \<and> width c' = width c \<and> height c' = height c
           \<and> butlast (columns c') = tl (columns c)
           \<and> last (columns c') =
               foldl (paintBand (height c)) []
                 (clearBand (height c) #
                  map (binBand colormap d (height c)
                         \<lfloor>of_int FREQ_MAX / (sampleRate / 2) * of_nat (length d)\<rfloor>)
                    (filter (nonzero_bin d)
                       [0..<nat \<lfloor>of_int FREQ_MAX / (sampleRate / 2) * of_nat (length d)\<rfloor>]))"
proof -
  have m: "maxFreqIndex sampleRate (length d)
             = \<lfloor>of_int FREQ_MAX / (sampleRate / 2) * of_nat (length d)\<rfloor>"
    by (simp only: maxFreqIndex_def Let_def)
  from renderLive_columns [OF assms(1-3), of colormap sampleRate d]
  obtain c' where "renderLive colormap sampleRate d c = Inr (c', signalLevelOf d)"
    and "width c' = width c" and "height c' = height c"
    and "columns c' = tl (columns c) @
               [foldl (paintBand (height c)) []
                  (clearBand (height c) #
                   map (binBand colormap d (height c) (maxFreqIndex sampleRate (length d)))
                     (filter (nonzero_bin d) [0..<nat (maxFreqIndex sampleRate (length d))]))]"
    by blast
  then show ?thesis
    unfolding m by simp
qed

theorem renderLive_tick_witness:
  "length (columns smallCanvas) = width smallCanvas \<and> 1 < width smallCanvas
   \<and> 0 < height smallCanvas \<and> (0::rat) < 48000
   \<and> (\<exists>c'. renderLive generateBirdSongColormap 48000 [0, 3, 0, 255] smallCanvas
               = Inr (c', signalLevelOf [0, 3, 0, 255])
           \<and> width c' = 3 \<and> height c' = 4
           \<and> butlast (columns c') = [[clearBand 4], [clearBand 4]]
           \<and> last (columns c')
               = [clearBand 4, \<lparr>band_y = - 1, band_h = 3, band_style = Rgb 2 0 5\<rparr>])"
proof -
  have h: "length (columns smallCanvas) = width smallCanvas" "1 < width smallCanvas"
    "0 < height smallCanvas" "(0::rat) < 48000"
    by (simp_all add: smallCanvas_eval)
  have hs: "height smallCanvas = 4" "width smallCanvas = 3"
    "tl (columns smallCanvas) = [[clearBand 4], [clearBand 4]]"
    by (simp_all add: smallCanvas_eval)
  from renderLive_tick [OF h, of generateBirdSongColormap "[0, 3, 0, 255]"]
  obtain c' where r: "renderLive generateBirdSongColormap 48000 [0, 3, 0, 255] smallCanvas
               = Inr (c', signalLevelOf [0, 3, 0, 255])"
    and w: "width c' = width smallCanvas" and hh: "height c' = height smallCanvas"
    and b: "butlast (columns c') = tl (columns smallCanvas)"
    and l: "last (columns c') =
               foldl (paintBand (height smallCanvas)) []
                 (clearBand (height smallCanvas) #
                  map (binBand generateBirdSongColormap [0, 3, 0, 255] (height smallCanvas)
                         \<lfloor>of_int FREQ_MAX / ((48000::rat) / 2)
                            * of_nat (length [0::8 word, 3, 0, 255])\<rfloor>)
                    (filter (nonzero_bin [0, 3, 0, 255])
                       [0..<nat \<lfloor>of_int FREQ_MAX / ((48000::rat) / 2)
                                  * of_nat (length [0::8 word, 3, 0, 255])\<rfloor>]))"
    by blast
  have l': "last (columns c')
               = [clearBand 4, \<lparr>band_y = - 1, band_h = 3, band_style = Rgb 2 0 5\<rparr>]"
    using l unfolding hs by (simp only: example_column)
  from r w hh b l' have "\<exists>c'. renderLive generateBirdSongColormap 48000 [0, 3, 0, 255] smallCanvas
               = Inr (c', signalLevelOf [0, 3, 0, 255])
           \<and> width c' = 3 \<and> height c' = 4
           \<and> butlast (columns c') = [[clearBand 4], [clearBand 4]]
           \<and> last (columns c')
               = [clearBand 4, \<lparr>band_y = - 1, band_h = 3, band_style = Rgb 2 0 5\<rparr>]"
    unfolding hs by blast
  with h show ?thesis by blast
qed

subsection \<open>Any number of ticks\<close>

lemma ticks_scroll:
  assumes "length (columns c) = width c" "1 < width c" "0 < height c"
  shows "\<exists>c'. ticks cm sr frames c = Inr c' \<and> width c' = width c \<and> height c' = height c
           \<and> length (columns c') = width c
           \<and> take (width c - length frames) (columns c') = drop (length frames) (columns c)"
  using assms
proof (induction frames arbitrary: c)
  case Nil
  then show ?case by simp
next
  case (Cons d ds)
  from renderLive_columns [OF Cons.prems, of cm sr d]
  obtain c1 where r: "renderLive cm sr d c = Inr (c1, signalLevelOf d)"
    and w1: "width c1 = width c" and h1: "height c1 = height c"
    and cols1: "\<exists>x. columns c1 = tl (columns c) @ [x]"
    by blast
  from cols1 obtain x where cx: "columns c1 = tl (columns c) @ [x]" ..
  have len1: "length (columns c1) = width c1"
    using Cons.prems cx w1 by simp
  from Cons.IH [OF len1] Cons.prems w1 h1
  obtain c' where t: "ticks cm sr ds c1 = Inr c'" and w': "width c' = width c1"
    and h': "height c' = height c1" and l': "length (columns c') = width c1"
    and sh: "take (width c1 - length ds) (columns c') = drop (length ds) (columns c1)"
    by auto
  have "take (width c - Suc (length ds)) (columns c') = drop (Suc (length ds)) (columns c)"
  proof -
    have "take (width c - Suc (length ds)) (columns c')
          = take (width c - Suc (length ds)) (take (width c1 - length ds) (columns c'))"
      by (simp add: w1 min_def)
    also have "\<dots> = take (width c - Suc (length ds)) (drop (length ds) (tl (columns c) @ [x]))"
      by (simp only: sh cx)
    also have "\<dots> = drop (length ds) (tl (columns c))"
      using Cons.prems by simp
    also have "\<dots> = drop (Suc (length ds)) (columns c)"
      by (simp add: drop_Suc)
    finally show ?thesis .
  qed
  with r t w' h' l' w1 h1 show ?case by simp
qed


lemma liveCanvas_init:
  "length (columns (initLive liveCanvas)) = width (initLive liveCanvas)
   \<and> width (initLive liveCanvas) = 1200 \<and> height (initLive liveCanvas) = 320"
  by (simp add: initLive_def liveCanvas_def fillRect_def)

text \<open>
  Claim C6. From a canvas at least two columns wide and one pixel high, any number \<open>N\<close> of
  ticks (one per frame of the list) succeeds, and afterwards the width, the height and the
  number of columns of the buffer are what they were at the start. The content has only
  scrolled: the first \<open>width - N\<close> columns are the old columns from the \<open>N\<close>-th on, so the
  \<open>N\<close> oldest columns (all of them once \<open>N\<close> reaches the width) are gone and the last
  \<open>N\<close> were written by the ticks.
\<close>

theorem waterfall_size_invariant:
  assumes "length (columns c) = width c" and "1 < width c" and "0 < height c"
  shows "\<exists>c'. ticks colormap sampleRate frames c = Inr c'
           \<and> width c' = width c \<and> height c' = height c
           \<and> length (columns c') = length (columns c)
           \<and> take (width c - length frames) (columns c') = drop (length frames) (columns c)"
  using ticks_scroll [OF assms, of colormap sampleRate frames] assms(1) by simp

text \<open>The witness is the canvas of the component, 1200 by 320, over two frames.\<close>

theorem waterfall_size_invariant_witness:
  "length (columns (initLive liveCanvas)) = width (initLive liveCanvas)
   \<and> 1 < width (initLive liveCanvas) \<and> 0 < height (initLive liveCanvas)
   \<and> (\<exists>c'. ticks generateBirdSongColormap 48000 [[0, 3, 0, 255], [1, 0, 0, 0]]
                 (initLive liveCanvas) = Inr c'
           \<and> width c' = 1200 \<and> height c' = 320 \<and> length (columns c') = 1200)"
proof -
  have h: "length (columns (initLive liveCanvas)) = width (initLive liveCanvas)"
    "1 < width (initLive liveCanvas)" "0 < height (initLive liveCanvas)"
    by (simp_all add: liveCanvas_init)
  from waterfall_size_invariant [OF h, of generateBirdSongColormap 48000
      "[[0, 3, 0, 255], [1, 0, 0, 0]]"]
  have "\<exists>c'. ticks generateBirdSongColormap 48000 [[0, 3, 0, 255], [1, 0, 0, 0]]
                 (initLive liveCanvas) = Inr c'
           \<and> width c' = 1200 \<and> height c' = 320 \<and> length (columns c') = 1200"
    using liveCanvas_init by auto
  with h show ?thesis by blast
qed

section \<open>Calibration sweep: results\<close>

subsection \<open>The schedule and the start\<close>

lemma scheduleSweep_count:
  "fst (scheduleSweep freq st n evs) = n + nat ((FREQ_MAX + 200 - freq) div 200)"
proof (induction freq st n evs rule: scheduleSweep.induct)
  case (1 freq st n evs)
  show ?case
  proof (cases "freq \<le> FREQ_MAX")
    case True
    then have "(FREQ_MAX + 200 - freq) div 200 = (FREQ_MAX - freq) div 200 + 1"
      by simp
    moreover from True have "0 \<le> (FREQ_MAX - freq) div 200" by simp
    ultimately have "nat ((FREQ_MAX + 200 - freq) div 200) = Suc (nat ((FREQ_MAX - freq) div 200))"
      by simp
    moreover have "fst (scheduleSweep freq st n evs)
        = n + 1 + nat ((FREQ_MAX + 200 - (freq + 200)) div 200)"
      using True 1 by (subst scheduleSweep.simps) simp
    ultimately show ?thesis by simp
  next
    case False
    then have "\<not> 0 < (FREQ_MAX + 200 - freq) div 200"
      by (simp add: pos_imp_zdiv_pos_iff)
    then have "(FREQ_MAX + 200 - freq) div 200 \<le> 0" by simp
    with False show ?thesis
      by (subst scheduleSweep.simps) simp
  qed
qed

lemma scheduleSweep_events:
  "snd (scheduleSweep freq st n evs) =
     evs @ map (\<lambda>j. (freq + 200 * int j, st + of_nat (n + j) * stepDuration))
             [0..<nat ((FREQ_MAX + 200 - freq) div 200)]"
proof (induction freq st n evs rule: scheduleSweep.induct)
  case (1 freq st n evs)
  show ?case
  proof (cases "freq \<le> FREQ_MAX")
    case True
    then have "(FREQ_MAX + 200 - freq) div 200 = (FREQ_MAX - freq) div 200 + 1"
      by simp
    moreover from True have "0 \<le> (FREQ_MAX - freq) div 200" by simp
    ultimately have k: "nat ((FREQ_MAX + 200 - freq) div 200) = Suc (nat ((FREQ_MAX - freq) div 200))"
      by simp
    have "snd (scheduleSweep freq st n evs)
        = (evs @ [(freq, st + of_nat n * stepDuration)]) @
            map (\<lambda>j. (freq + 200 + 200 * int j, st + of_nat (n + 1 + j) * stepDuration))
             [0..<nat ((FREQ_MAX + 200 - (freq + 200)) div 200)]"
      using True 1 by (subst scheduleSweep.simps) simp
    then show ?thesis
      by (simp add: k map_upt_Suc del: upt_Suc)
  next
    case False
    then have "\<not> 0 < (FREQ_MAX + 200 - freq) div 200"
      by (simp add: pos_imp_zdiv_pos_iff)
    then have "(FREQ_MAX + 200 - freq) div 200 \<le> 0" by simp
    with False show ?thesis
      by (subst scheduleSweep.simps) simp
  qed
qed

lemma scheduleSweep_10:
  "scheduleSweep 10 st 0 [] =
     (60, map (\<lambda>j. (10 + 200 * int j, st + of_nat j * stepDuration)) [0..<60])"
proof -
  have "nat ((FREQ_MAX + 200 - 10) div 200) = 60" by (simp add: FREQ_MAX_def)
  then show ?thesis
    using scheduleSweep_count [of 10 st 0 "[]"] scheduleSweep_events [of 10 st 0 "[]"]
    by (simp add: prod_eq_iff)
qed


lemma startSweep_eq:
  "startSweep s =
     s\<lparr>isCalibrating := True,
       calibFreq := 10,
       oscillators := oscillators s @
         [\<lparr>osc_type = ''sine'',
           frequencyEvents =
             map (\<lambda>j. (10 + 200 * int j, currentTime s + 1 / 10 + of_nat j * stepDuration)) [0..<60],
           startAt = Some (currentTime s + 1 / 10),
           stopAt = Some (currentTime s + 1 / 10 + 3)\<rparr>],
       gainValues := gainValues s @ [15 / 100],
       connections := connections s @
         [(OscillatorNode (length (oscillators s)), GainNode (length (oscillators s))),
          (GainNode (length (oscillators s)), Destination),
          (GainNode (length (oscillators s)), Analyser)],
       closures := closures s @ [\<lparr>interval = Some 50, currentStep = 0, timeout = Some 3100\<rparr>]\<rparr>"
  by (simp add: startSweep_def scheduleSweep_10 Let_def stepDuration_def del: upt_Suc)

lemma runLiveCalibration_start:
  assumes "canStart s" "\<not> ctxSuspended s"
  shows "runLiveCalibration s = startSweep s"
  using assms by (simp add: runLiveCalibration_def canStart_def)

lemma runLiveCalibration_await:
  assumes "canStart s" "ctxSuspended s"
  shows "runLiveCalibration s = s\<lparr>awaiting := awaiting s + 1\<rparr>"
  using assms by (simp add: runLiveCalibration_def canStart_def)

lemma runLiveCalibration_guard:
  "\<not> canStart s \<Longrightarrow> runLiveCalibration s = s"
  by (auto simp: runLiveCalibration_def canStart_def)

text \<open>The state after \<open>j\<close> firings of the interval of the closure made last.\<close>

lemma interval_ticks:
  assumes "closures s = cs @ [\<lparr>interval = Some p, currentStep = 0, timeout = d\<rparr>]"
    and "calibFreq s = 10"
  shows "foldl step s (replicate j (IntervalTick (length cs))) =
           s\<lparr>closures := cs @ [\<lparr>interval = (if j < 60 then Some p else None),
                                currentStep = int (min j 60), timeout = d\<rparr>],
             calibFreq := 10 + 200 * int (min j 59)\<rparr>"
proof (induction j)
  case 0
  with assms show ?case by simp
next
  case (Suc j)
  have "foldl step s (replicate (Suc j) (IntervalTick (length cs)))
        = step (foldl step s (replicate j (IntervalTick (length cs)))) (IntervalTick (length cs))"
    by (simp only: replicate_Suc replicate_append_same [symmetric] foldl_append foldl_Cons
          foldl_Nil)
  also have "\<dots> = s\<lparr>closures := cs @ [\<lparr>interval = (if Suc j < 60 then Some p else None),
                                currentStep = int (min (Suc j) 60), timeout = d\<rparr>],
             calibFreq := 10 + 200 * int (min (Suc j) 59)\<rparr>"
    unfolding Suc.IH
    by (cases "j < 59"; cases "j = 59")
       (simp_all add: intervalCallback_def Let_def FREQ_MAX_def min_def)
  finally show ?case .
qed

lemma run_conv_foldl:
  "run s es = map (\<lambda>n. foldl step s (take n es)) [1..<Suc (length es)]"
proof (induction es arbitrary: s)
  case Nil
  then show ?case by simp
next
  case (Cons e es)
  have "map (\<lambda>n. foldl step s (take n (e # es))) [1..<Suc (length (e # es))]
        = foldl step s (take 1 (e # es)) #
          map (\<lambda>n. foldl step s (take (Suc n) (e # es))) [1..<Suc (length es)]"
    by (simp add: upt_conv_Cons map_Suc_upt [symmetric] del: upt_Suc)
  also have "\<dots> = step s e # map (\<lambda>n. foldl step (step s e) (take n es)) [1..<Suc (length es)]"
    by simp
  also have "\<dots> = run s (e # es)"
    by (simp add: Cons.IH del: upt_Suc)
  finally show ?case by simp
qed



subsection \<open>A whole sweep\<close>

lemma canStart_idlePlayer: "canStart idlePlayer"
  by (simp add: canStart_def idlePlayer_def)

lemma running_idlePlayer: "\<not> ctxSuspended idlePlayer"
  by (simp add: idlePlayer_def)

lemma startSweep_closures:
  "closures (startSweep s)
     = closures s @ [\<lparr>interval = Some 50, currentStep = 0, timeout = Some 3100\<rparr>]"
  by (simp add: startSweep_eq)

lemma sweepTimers_start:
  "sweepTimers (startSweep s)
     = replicate 62 (IntervalTick (length (closures s))) @ [TimeoutFire (length (closures s))]"
  by (simp add: sweepTimers_def startSweep_closures Let_def)

lemma sweep_start:
  assumes "canStart s"
  shows "(if ctxSuspended s then resumeResolved (runLiveCalibration s) else runLiveCalibration s)
           = startSweep (s\<lparr>ctxSuspended := False\<rparr>)"
proof (cases "ctxSuspended s")
  case True
  have "(s\<lparr>awaiting := awaiting s + 1\<rparr>)\<lparr>ctxSuspended := False, awaiting := awaiting s\<rparr>
          = s\<lparr>ctxSuspended := False\<rparr>"
    by simp
  with True show ?thesis
    by (simp add: runLiveCalibration_await [OF assms True] resumeResolved_def)
next
  case False
  then have e: "s\<lparr>ctxSuspended := False\<rparr> = s" by simp
  from False
  have "(if ctxSuspended s then resumeResolved (runLiveCalibration s) else runLiveCalibration s)
          = runLiveCalibration s"
    by simp
  also have "\<dots> = startSweep s" using assms False by (rule runLiveCalibration_start)
  finally show ?thesis by (simp only: e)
qed

lemma sweep_eq:
  assumes "canStart s"
  shows "sweep s = startSweep (s\<lparr>ctxSuspended := False\<rparr>) #
           run (startSweep (s\<lparr>ctxSuspended := False\<rparr>))
             (replicate 62 (IntervalTick (length (closures s))) @ [TimeoutFire (length (closures s))])"
proof -
  have "sweepTimers (startSweep (s\<lparr>ctxSuspended := False\<rparr>))
          = replicate 62 (IntervalTick (length (closures s))) @ [TimeoutFire (length (closures s))]"
    by (simp add: sweepTimers_start)
  then show ?thesis
    by (simp only: sweep_def Let_def sweep_start [OF assms])
qed

lemma sweep_length:
  assumes "canStart s"
  shows "length (sweep s) = 64"
  by (simp add: sweep_eq [OF assms] run_conv_foldl del: upt_Suc replicate_Suc)

lemma sweep_nth:
  assumes "canStart s" "j \<le> 62"
  shows "sweep s ! j = foldl step (startSweep (s\<lparr>ctxSuspended := False\<rparr>))
                         (replicate j (IntervalTick (length (closures s))))"
proof (cases j)
  case 0
  then show ?thesis by (simp add: sweep_eq [OF assms(1)])
next
  case (Suc i)
  with assms have i: "i < 62" by simp
  let ?k = "length (closures s)"
  let ?s = "startSweep (s\<lparr>ctxSuspended := False\<rparr>)"
  have "sweep s ! j = run ?s (replicate 62 (IntervalTick ?k) @ [TimeoutFire ?k]) ! i"
    by (simp add: sweep_eq [OF assms(1)] Suc del: replicate_Suc)
  also have "\<dots> = foldl step ?s (take (Suc i) (replicate 62 (IntervalTick ?k) @ [TimeoutFire ?k]))"
    using i by (simp add: run_conv_foldl del: upt_Suc take_Suc_Cons replicate_Suc)
  also have "take (Suc i) (replicate 62 (IntervalTick ?k) @ [TimeoutFire ?k])
               = replicate j (IntervalTick ?k)"
    using i Suc by (simp add: min_def del: replicate_Suc)
  finally show ?thesis .
qed

lemma started_closures:
  "closures (startSweep (s\<lparr>ctxSuspended := False\<rparr>))
     = closures s @ [\<lparr>interval = Some 50, currentStep = 0, timeout = Some 3100\<rparr>]"
  by (simp add: startSweep_closures)

lemma sweep_ticks:
  assumes "canStart s" "j \<le> 62"
  shows "sweep s ! j =
           (startSweep (s\<lparr>ctxSuspended := False\<rparr>))\<lparr>closures := closures s @
                [\<lparr>interval = (if j < 60 then Some 50 else None),
                  currentStep = int (min j 60), timeout = Some 3100\<rparr>],
             calibFreq := 10 + 200 * int (min j 59)\<rparr>"
proof -
  have c: "calibFreq (startSweep (s\<lparr>ctxSuspended := False\<rparr>)) = 10"
    by (simp add: startSweep_eq)
  show ?thesis
    unfolding sweep_nth [OF assms]
    by (rule interval_ticks [OF started_closures c])
qed

lemma sweep_last:
  assumes "canStart s"
  shows "last (sweep s) =
           (startSweep (s\<lparr>ctxSuspended := False\<rparr>))\<lparr>isCalibrating := False, calibFreq := 0,
              closures := closures s @ [\<lparr>interval = None, currentStep = 60, timeout = None\<rparr>]\<rparr>"
proof -
  let ?k = "length (closures s)"
  let ?s = "startSweep (s\<lparr>ctxSuspended := False\<rparr>)"
  let ?t = "?s\<lparr>closures := closures s @
                [\<lparr>interval = (if (62::nat) < 60 then Some 50 else None),
                  currentStep = int (min 62 60), timeout = Some 3100\<rparr>],
             calibFreq := 10 + 200 * int (min 62 59)\<rparr>"
  have c: "calibFreq ?s = 10" by (simp add: startSweep_eq)
  have ne: "sweep s \<noteq> []" using sweep_length [OF assms] by auto
  have "last (sweep s) = sweep s ! (length (sweep s) - 1)"
    using ne by (rule last_conv_nth)
  then have "last (sweep s) = sweep s ! 63"
    by (simp add: sweep_length [OF assms])
  also have "\<dots> = run ?s (replicate 62 (IntervalTick ?k) @ [TimeoutFire ?k]) ! 62"
    by (simp add: sweep_eq [OF assms] del: replicate_Suc)
  also have "\<dots> = foldl step ?s (replicate 62 (IntervalTick ?k) @ [TimeoutFire ?k])"
    by (simp add: run_conv_foldl del: upt_Suc replicate_Suc)
  also have "\<dots> = step (foldl step ?s (replicate 62 (IntervalTick ?k))) (TimeoutFire ?k)"
    by (simp only: foldl_append foldl_Cons foldl_Nil)
  also have "\<dots> = step ?t (TimeoutFire ?k)"
    by (simp only: interval_ticks [OF started_closures c])
  also have "\<dots> = ?s\<lparr>isCalibrating := False, calibFreq := 0,
              closures := closures s @ [\<lparr>interval = None, currentStep = 60, timeout = None\<rparr>]\<rparr>"
    by (simp add: timeoutCallback_def)
  finally show ?thesis .
qed

lemma sweep_running:
  assumes "canStart s" "j \<le> 62"
  shows "isCalibrating (sweep s ! j) \<and> calibFreq (sweep s ! j) = 10 + 200 * int (min j 59)"
  by (simp add: sweep_ticks [OF assms] startSweep_eq)

lemma sweep_final:
  assumes "canStart s"
  shows "\<not> isCalibrating (last (sweep s)) \<and> calibFreq (last (sweep s)) = 0
       \<and> \<not> ctxSuspended (last (sweep s))
       \<and> closures (last (sweep s))
           = closures s @ [\<lparr>interval = None, currentStep = 60, timeout = None\<rparr>]
       \<and> connections (last (sweep s)) = connections (startSweep s)
       \<and> oscillators (last (sweep s)) = oscillators (startSweep s)"
  by (simp add: sweep_last [OF assms] startSweep_eq)

lemma sweep_display:
  assumes "canStart s"
  shows "map calibFreq (sweep s) = map (\<lambda>k. 10 + 200 * int (min k 59)) [0..<63] @ [0]"
proof (rule nth_equalityI)
  show "length (map calibFreq (sweep s))
          = length (map (\<lambda>k. 10 + 200 * int (min k 59)) [0..<63] @ [0])"
    by (simp add: sweep_length [OF assms])
next
  fix i
  assume "i < length (map calibFreq (sweep s))"
  then have i: "i < 64" by (simp add: sweep_length [OF assms])
  show "map calibFreq (sweep s) ! i = (map (\<lambda>k. 10 + 200 * int (min k 59)) [0..<63] @ [0]) ! i"
  proof (cases "i \<le> 62")
    case True
    then have "i < 63" by simp
    then have "(map (\<lambda>k. 10 + 200 * int (min k 59)) [0..<63] @ [0]) ! i
                 = 10 + 200 * int (min i 59)"
      by (simp add: nth_append del: upt_Suc)
    with True i show ?thesis
      using sweep_running [OF assms True] by (simp add: sweep_length [OF assms])
  next
    case False
    with i have e: "i = 63" by simp
    have ne: "sweep s \<noteq> []" using sweep_length [OF assms] by auto
    have "last (sweep s) = sweep s ! (length (sweep s) - 1)"
      using ne by (rule last_conv_nth)
    then have "sweep s ! 63 = last (sweep s)" by (simp add: sweep_length [OF assms])
    moreover have "(map (\<lambda>k. 10 + 200 * int (min k 59)) [0..<63] @ [0]) ! 63 = 0"
      by (simp add: nth_append del: upt_Suc)
    ultimately show ?thesis
      using sweep_final [OF assms] e by (simp add: sweep_length [OF assms])
  qed
qed

lemma sweep_display_max:
  assumes "canStart s"
  shows "Max (set (map calibFreq (sweep s))) = 11810"
proof (rule Max_eqI)
  show "finite (set (map calibFreq (sweep s)))" by simp
next
  fix y
  assume "y \<in> set (map calibFreq (sweep s))"
  then have "y = 0 \<or> (\<exists>k. y = 10 + 200 * int (min k 59))"
    unfolding sweep_display [OF assms] by auto
  then show "y \<le> 11810" by auto
next
  have "(59::nat) < 63" by simp
  then have "10 + 200 * int (min 59 59) \<in> (\<lambda>k. 10 + 200 * int (min k 59)) ` set [0..<63]"
    by (intro imageI) simp
  then show "11810 \<in> set (map calibFreq (sweep s))"
    unfolding sweep_display [OF assms] by simp
qed

lemma sweep_running_sorted:
  assumes "canStart s"
  shows "sorted (map calibFreq (butlast (sweep s)))"
proof -
  have "map calibFreq (butlast (sweep s)) = butlast (map calibFreq (sweep s))"
    by (simp add: map_butlast)
  also have "\<dots> = map (\<lambda>k. 10 + 200 * int (min k 59)) [0..<63]"
    unfolding sweep_display [OF assms] by (simp add: butlast_append)
  finally show ?thesis
    by (auto simp add: sorted_map sorted_wrt_iff_nth_less simp del: upt_Suc)
qed

lemma sweep_flags:
  assumes "canStart s"
  shows "map isCalibrating (sweep s) = replicate 63 True @ [False]"
proof (rule nth_equalityI)
  show "length (map isCalibrating (sweep s)) = length (replicate 63 True @ [False])"
    by (simp add: sweep_length [OF assms])
next
  fix i
  assume "i < length (map isCalibrating (sweep s))"
  then have i: "i < 64" by (simp add: sweep_length [OF assms])
  show "map isCalibrating (sweep s) ! i = (replicate 63 True @ [False]) ! i"
  proof (cases "i \<le> 62")
    case True
    then have "(replicate 63 True @ [False]) ! i = True"
      by (simp add: nth_append)
    with True i show ?thesis
      using sweep_running [OF assms True] by (simp add: sweep_length [OF assms])
  next
    case False
    with i have e: "i = 63" by simp
    have ne: "sweep s \<noteq> []" using sweep_length [OF assms] by auto
    have "last (sweep s) = sweep s ! (length (sweep s) - 1)"
      using ne by (rule last_conv_nth)
    then have "sweep s ! 63 = last (sweep s)" by (simp add: sweep_length [OF assms])
    moreover have "(replicate 63 True @ [False]) ! 63 = False"
      by (simp add: nth_append)
    ultimately show ?thesis
      using sweep_final [OF assms] e by (simp add: sweep_length [OF assms])
  qed
qed

subsection \<open>Any order of events\<close>

lemma display_bound_step:
  assumes "isCalibrating s \<longrightarrow> calibFreq s \<le> 11810"
  shows "isCalibrating (step s e) \<longrightarrow> calibFreq (step s e) \<le> 11810"
proof (cases e)
  case StartRequest
  with assms show ?thesis
    by (simp add: runLiveCalibration_def startSweep_eq)
next
  case ResumeResolved
  with assms show ?thesis
    by (simp add: resumeResolved_def startSweep_eq)
next
  case (IntervalTick k)
  with assms show ?thesis
    by (auto simp: intervalCallback_def Let_def FREQ_MAX_def)
next
  case (TimeoutFire k)
  with assms show ?thesis
    by (simp add: timeoutCallback_def)
qed

lemma display_bound_run:
  assumes "isCalibrating s \<longrightarrow> calibFreq s \<le> 11810" "t \<in> set (run s es)"
  shows "isCalibrating t \<longrightarrow> calibFreq t \<le> 11810"
  using assms
proof (induction es arbitrary: s)
  case Nil
  then show ?case by simp
next
  case (Cons e es)
  from Cons.prems(1) have "isCalibrating (step s e) \<longrightarrow> calibFreq (step s e) \<le> 11810"
    by (rule display_bound_step)
  with Cons show ?case by auto
qed

lemma display_inv_startSweep:
  assumes "\<not> ctxSuspended s" "settled s"
  shows "display_inv (startSweep s)"
proof -
  have "\<And>k. k < length (closures s) \<Longrightarrow>
           interval (closures s ! k) = None \<and> timeout (closures s ! k) = None"
    using assms(2) by (simp add: settled_def)
  with assms show ?thesis
    by (simp add: display_inv_def startSweep_eq settled_def nth_append)
qed

lemma display_inv_cleared:
  assumes "display_inv s" "\<not> isCalibrating s" "k < length (closures s)"
  shows "interval (closures s ! k) = None \<and> timeout (closures s ! k) = None"
  using assms by (simp add: display_inv_def)

lemma display_inv_timer_last:
  assumes "display_inv s" "k < length (closures s)"
    "interval (closures s ! k) \<noteq> None \<or> timeout (closures s ! k) \<noteq> None"
  shows "isCalibrating s \<and> Suc k = length (closures s)"
proof -
  have r: "isCalibrating s"
    using display_inv_cleared [OF assms(1) _ assms(2)] assms(3) by blast
  have "\<not> Suc k < length (closures s)"
    using assms(1,3) by (auto simp: display_inv_def)
  with assms(2) r show ?thesis by simp
qed

lemma display_inv_step:
  assumes "display_inv s"
  shows "display_inv (step s e)"
proof (cases e)
  case StartRequest
  show ?thesis
  proof (cases "canStart s")
    case True
    then have idle: "\<not> isCalibrating s" by (simp add: canStart_def)
    from assms have ns: "\<not> ctxSuspended s" by (simp add: display_inv_def)
    from assms idle have "settled s" by (simp add: display_inv_def settled_def)
    with ns have "display_inv (startSweep s)" by (rule display_inv_startSweep)
    then show ?thesis
      by (simp add: StartRequest runLiveCalibration_start [OF True ns])
  next
    case False
    with assms show ?thesis
      by (simp add: StartRequest runLiveCalibration_guard)
  qed
next
  case ResumeResolved
  with assms show ?thesis
    by (simp add: resumeResolved_def display_inv_def)
next
  case (IntervalTick k)
  show ?thesis
  proof (cases "k < length (closures s) \<and> interval (closures s ! k) \<noteq> None")
    case False
    with assms show ?thesis by (auto simp: IntervalTick)
  next
    case True
    then have fire: "step s e = intervalCallback k s" by (simp add: IntervalTick)
    from True display_inv_timer_last [OF assms, of k]
    have r: "isCalibrating s" and k: "Suc k = length (closures s)" by simp_all
    from k have ne: "closures s \<noteq> []" by auto
    from k have km: "length (closures s) - 1 = k" by arith
    from k have km': "length (closures s) - Suc 0 = k" by arith
    from ne have "last (closures s) = closures s ! (length (closures s) - 1)"
      by (rule last_conv_nth)
    then have la: "last (closures s) = closures s ! k"
      by (simp only: km)
    from assms r la have t: "timeout (closures s ! k) \<noteq> None"
      and st: "0 \<le> currentStep (closures s ! k)"
      and cf: "calibFreq s = 10 + 200 * min (currentStep (closures s ! k)) 59"
      by (simp_all add: display_inv_def)
    from assms have early: "\<And>j. Suc j < length (closures s) \<Longrightarrow>
        interval (closures s ! j) = None \<and> timeout (closures s ! j) = None"
      and ns: "\<not> ctxSuspended s" and aw: "awaiting s = 0"
      by (simp_all add: display_inv_def)
    have la': "\<And>c. last ((closures s)[k := c]) = c"
    proof -
      fix c
      from ne have "(closures s)[k := c] \<noteq> []" by simp
      then have "last ((closures s)[k := c]) = (closures s)[k := c] ! (length ((closures s)[k := c]) - 1)"
        by (rule last_conv_nth)
      also have "\<dots> = (closures s)[k := c] ! k" by (simp add: km')
      also have "\<dots> = c" using k by simp
      finally show "last ((closures s)[k := c]) = c" .
    qed
    have ea': "\<And>c j. Suc j < length (closures s) \<Longrightarrow> (closures s)[k := c] ! j = closures s ! j"
      using k by simp
    show ?thesis
      unfolding fire
      using r t st cf early ns aw ne
      by (auto simp: display_inv_def intervalCallback_def Let_def FREQ_MAX_def la' ea' min_def)
  qed
next
  case (TimeoutFire k)
  show ?thesis
  proof (cases "k < length (closures s) \<and> timeout (closures s ! k) \<noteq> None")
    case False
    with assms show ?thesis by (auto simp: TimeoutFire)
  next
    case True
    then have fire: "step s e = timeoutCallback k s" by (simp add: TimeoutFire)
    from True display_inv_timer_last [OF assms, of k]
    have r: "isCalibrating s" and k: "Suc k = length (closures s)" by simp_all
    from assms have early: "\<And>j. Suc j < length (closures s) \<Longrightarrow>
        interval (closures s ! j) = None \<and> timeout (closures s ! j) = None"
      and ns: "\<not> ctxSuspended s" and aw: "awaiting s = 0"
      by (simp_all add: display_inv_def)
    have all: "interval c = None \<and> timeout c = None"
      if "c \<in> set ((closures s)[k := (closures s ! k)\<lparr>interval := None, timeout := None\<rparr>])" for c
    proof -
      from that obtain j where j: "j < length (closures s)"
        and c: "c = (closures s)[k := (closures s ! k)\<lparr>interval := None, timeout := None\<rparr>] ! j"
        by (auto simp: in_set_conv_nth)
      show ?thesis
      proof (cases "j = k")
        case True
        with j c show ?thesis by simp
      next
        case False
        with j k have "Suc j < length (closures s)" by simp
        from early [OF this] False c show ?thesis by simp
      qed
    qed
    have ea: "interval ((closures s)[k := (closures s ! k)\<lparr>interval := None, timeout := None\<rparr>] ! j) = None
        \<and> timeout ((closures s)[k := (closures s ! k)\<lparr>interval := None, timeout := None\<rparr>] ! j) = None"
      if "Suc j < length (closures s)" for j
      using that all [of "(closures s)[k := (closures s ! k)\<lparr>interval := None, timeout := None\<rparr>] ! j"]
      by (simp add: in_set_conv_nth) (metis Suc_lessD length_list_update)
    show ?thesis
      unfolding fire
      using ns aw all ea by (simp add: display_inv_def timeoutCallback_def)
  qed
qed

lemma display_inv_run:
  assumes "display_inv s" "t \<in> set (run s es)"
  shows "display_inv t"
  using assms
proof (induction es arbitrary: s)
  case Nil
  then show ?case by simp
next
  case (Cons e es)
  from Cons.prems(1) have "display_inv (step s e)" by (rule display_inv_step)
  with Cons show ?case by auto
qed

lemma display_inv_mono:
  assumes "display_inv s" "isCalibrating s" "isCalibrating (step s e)"
  shows "calibFreq s \<le> calibFreq (step s e)"
proof (cases e)
  case StartRequest
  with assms show ?thesis
    by (simp add: runLiveCalibration_def)
next
  case ResumeResolved
  with assms show ?thesis
    by (simp add: resumeResolved_def display_inv_def)
next
  case (IntervalTick k)
  show ?thesis
  proof (cases "k < length (closures s) \<and> interval (closures s ! k) \<noteq> None")
    case False
    then show ?thesis by (auto simp: IntervalTick)
  next
    case True
    from True display_inv_timer_last [OF assms(1), of k]
    have k: "Suc k = length (closures s)" by simp
    then have ne: "closures s \<noteq> []" by auto
    from k have km: "length (closures s) - 1 = k" by arith
    from ne have "last (closures s) = closures s ! (length (closures s) - 1)"
      by (rule last_conv_nth)
    then have la: "last (closures s) = closures s ! k"
      by (simp only: km)
    from assms(1,2) la have "0 \<le> currentStep (closures s ! k)"
      and "calibFreq s = 10 + 200 * min (currentStep (closures s ! k)) 59"
      by (simp_all add: display_inv_def)
    with True show ?thesis
      by (auto simp: IntervalTick intervalCallback_def Let_def FREQ_MAX_def min_def)
  qed
next
  case (TimeoutFire k)
  with assms show ?thesis
    by (auto simp: timeoutCallback_def)
qed

lemma run_nth_Suc:
  assumes "Suc i < length es"
  shows "run s es ! Suc i = step (run s es ! i) (es ! Suc i)"
  using assms
proof (induction es arbitrary: s i)
  case Nil
  then show ?case by simp
next
  case (Cons e es)
  show ?case
  proof (cases i)
    case 0
    with Cons.prems show ?thesis by (cases es) simp_all
  next
    case (Suc j)
    with Cons.prems have "Suc j < length es" by simp
    from Cons.IH [OF this, of "step s e"] Suc show ?thesis by simp
  qed
qed

lemma run_length: "length (run s es) = length es"
  by (induction es arbitrary: s) simp_all

lemma run_mono:
  assumes "display_inv s" "Suc i < length es"
    "isCalibrating (run s es ! i)" "isCalibrating (run s es ! Suc i)"
  shows "calibFreq (run s es ! i) \<le> calibFreq (run s es ! Suc i)"
proof -
  from assms(2) have "run s es ! i \<in> set (run s es)"
    by (simp add: run_length)
  with assms(1) have "display_inv (run s es ! i)" by (rule display_inv_run)
  then show ?thesis
    using assms(3,4) unfolding run_nth_Suc [OF assms(2)] by (rule display_inv_mono)
qed

subsection \<open>The claims about the sweep\<close>

lemma steps_by_spec_61: "steps_by_spec = 61"
proof -
  have "\<lceil>(12000 - 10) / (200 :: rat)\<rceil> = 60"
    by (simp add: ceiling_eq_iff)
  then show ?thesis by (simp add: steps_by_spec_def)
qed

text \<open>
  Claim C4 as stated fails: the loop of lines 153 to 157 schedules 60 steps, the formula
  \<open>ceil((12000 - 10) / 200) + 1\<close> gives 61, and the oscillator of a sweep started from
  the idle player holds 60 frequency events.
\<close>

theorem sweep_step_count_counterexample:
  "fst (scheduleSweep 10 (1 / 10) 0 []) = 60 \<and> steps_by_spec = 61
   \<and> length (frequencyEvents (last (oscillators (runLiveCalibration idlePlayer)))) \<noteq> steps_by_spec"
  by (simp add: scheduleSweep_10 steps_by_spec_61
        runLiveCalibration_start [OF canStart_idlePlayer running_idlePlayer] startSweep_eq
        del: upt_Suc)

text \<open>
  Claim C4, as amended. For the minimum 10 Hz, the maximum 12000 Hz, the increment 200 Hz
  and the step duration 50 ms, the number of scheduled steps is
  \<open>floor((12000 - 10) / 200) + 1 = 60\<close>: the frequencies \<open>10, 210, \<dots>, 11810\<close>, the
  \<open>j\<close>-th at \<open>startTime + j * 0.05\<close> seconds. The loop stops before a frequency above
  the maximum.
\<close>

theorem sweep_step_count:
  "fst (scheduleSweep 10 startTime 0 []) = nat \<lfloor>(of_int FREQ_MAX - 10) / (200 :: rat)\<rfloor> + 1
   \<and> fst (scheduleSweep 10 startTime 0 []) = 60
   \<and> snd (scheduleSweep 10 startTime 0 [])
       = map (\<lambda>j. (10 + 200 * int j, startTime + of_nat j * (5 / 100))) [0..<60]"
proof -
  have "\<lfloor>(of_int FREQ_MAX - 10) / (200 :: rat)\<rfloor> = 59"
    by (simp add: FREQ_MAX_def)
  then show ?thesis
    by (simp add: scheduleSweep_10 stepDuration_def del: upt_Suc)
qed

text \<open>
  Claim C5 as stated fails: over a whole sweep from the idle player, the largest value of
  \<open>calibFreq\<close> is below 11990.
\<close>

theorem calibration_display_counterexample:
  "Max (set (map calibFreq (sweep idlePlayer))) < 11990"
  unfolding sweep_display_max [OF canStart_idlePlayer] by simp

text \<open>
  Claim C5, as amended. In a sweep started from a state that passes the guard (with the
  context running, or suspended and then resumed), with the timers firing in the order of
  the clock, the sweep is running from its start through each of the 62 firings of the
  interval, and idle after the timeout. While it runs the displayed \<open>calibFreq\<close> is
  non-decreasing: \<open>10 + 200 * min k 59\<close> after \<open>k\<close> firings, so it reaches 11810, the
  largest value shown at all, and is reset to 0 on the return to idle. In whatever order
  the events come, a running sweep never shows more than 11810. Where the context runs,
  no call is suspended and no timer of an earlier call is set, so that one sweep runs at
  a time, the value does not decrease from one running state to the next in whatever
  order the events come.
\<close>

theorem calibration_display:
  assumes "canStart s"
  shows "map isCalibrating (sweep s) = replicate 63 True @ [False]
       \<and> map calibFreq (sweep s) = map (\<lambda>k. 10 + 200 * int (min k 59)) [0..<63] @ [0]
       \<and> sorted (map calibFreq (butlast (sweep s)))
       \<and> Max (set (map calibFreq (sweep s))) = 11810
       \<and> (\<forall>es. \<forall>t \<in> set (run (runLiveCalibration s) es).
             isCalibrating t \<longrightarrow> calibFreq t \<le> 11810)
       \<and> (settled s \<and> \<not> ctxSuspended s \<longrightarrow>
            (\<forall>es i. Suc i < length es
               \<and> isCalibrating (run (runLiveCalibration s) es ! i)
               \<and> isCalibrating (run (runLiveCalibration s) es ! Suc i)
               \<longrightarrow> calibFreq (run (runLiveCalibration s) es ! i)
                     \<le> calibFreq (run (runLiveCalibration s) es ! Suc i)))"
proof -
  from assms have idle: "\<not> isCalibrating s" by (simp add: canStart_def)
  from idle have "isCalibrating s \<longrightarrow> calibFreq s \<le> 11810" by simp
  then have "isCalibrating (step s StartRequest) \<longrightarrow> calibFreq (step s StartRequest) \<le> 11810"
    by (rule display_bound_step)
  then have "isCalibrating (runLiveCalibration s) \<longrightarrow> calibFreq (runLiveCalibration s) \<le> 11810"
    by simp
  then have b: "\<forall>es. \<forall>t \<in> set (run (runLiveCalibration s) es).
             isCalibrating t \<longrightarrow> calibFreq t \<le> 11810"
    using display_bound_run by blast
  have m: "settled s \<and> \<not> ctxSuspended s \<longrightarrow>
            (\<forall>es i. Suc i < length es
               \<and> isCalibrating (run (runLiveCalibration s) es ! i)
               \<and> isCalibrating (run (runLiveCalibration s) es ! Suc i)
               \<longrightarrow> calibFreq (run (runLiveCalibration s) es ! i)
                     \<le> calibFreq (run (runLiveCalibration s) es ! Suc i))"
  proof
    assume h: "settled s \<and> \<not> ctxSuspended s"
    then have ns: "\<not> ctxSuspended s" and se: "settled s" by simp_all
    have st: "runLiveCalibration s = startSweep s"
      using assms ns by (rule runLiveCalibration_start)
    from ns se have inv: "display_inv (startSweep s)" by (rule display_inv_startSweep)
    show "\<forall>es i. Suc i < length es
               \<and> isCalibrating (run (runLiveCalibration s) es ! i)
               \<and> isCalibrating (run (runLiveCalibration s) es ! Suc i)
               \<longrightarrow> calibFreq (run (runLiveCalibration s) es ! i)
                     \<le> calibFreq (run (runLiveCalibration s) es ! Suc i)"
      unfolding st using run_mono [OF inv] by blast
  qed
  from sweep_flags [OF assms] sweep_display [OF assms] sweep_running_sorted [OF assms]
    sweep_display_max [OF assms] b m
  show ?thesis by blast
qed

lemma settled_idlePlayer: "settled idlePlayer"
  by (simp add: settled_def idlePlayer_def)

lemma two_ticks:
  "map calibFreq (run (runLiveCalibration idlePlayer) [IntervalTick 0, IntervalTick 0]) = [210, 410]
   \<and> map isCalibrating (run (runLiveCalibration idlePlayer) [IntervalTick 0, IntervalTick 0])
       = [True, True]"
proof -
  have c: "closures idlePlayer = []" by (simp add: idlePlayer_def)
  show ?thesis
    by (simp add: runLiveCalibration_start [OF canStart_idlePlayer running_idlePlayer]
          startSweep_eq c intervalCallback_def FREQ_MAX_def Let_def)
qed

theorem calibration_display_witness:
  "canStart idlePlayer \<and> \<not> ctxSuspended idlePlayer \<and> settled idlePlayer
   \<and> map calibFreq (sweep idlePlayer) = map (\<lambda>k. 10 + 200 * int (min k 59)) [0..<63] @ [0]
   \<and> Max (set (map calibFreq (sweep idlePlayer))) = 11810
   \<and> Suc 0 < length [IntervalTick 0, IntervalTick 0]
   \<and> isCalibrating (run (runLiveCalibration idlePlayer) [IntervalTick 0, IntervalTick 0] ! 0)
   \<and> isCalibrating (run (runLiveCalibration idlePlayer) [IntervalTick 0, IntervalTick 0] ! Suc 0)
   \<and> calibFreq (run (runLiveCalibration idlePlayer) [IntervalTick 0, IntervalTick 0] ! 0)
       \<le> calibFreq (run (runLiveCalibration idlePlayer) [IntervalTick 0, IntervalTick 0] ! Suc 0)"
proof -
  note t = calibration_display [OF canStart_idlePlayer]
  let ?tr = "run (runLiveCalibration idlePlayer) [IntervalTick 0, IntervalTick 0]"
  have len: "Suc 0 < length [IntervalTick 0, IntervalTick 0]" by simp
  from two_ticks have "map isCalibrating ?tr ! 0 = True" "map isCalibrating ?tr ! Suc 0 = True"
    by simp_all
  then have r: "isCalibrating (?tr ! 0)" "isCalibrating (?tr ! Suc 0)"
    by (simp_all add: run_length)
  from t settled_idlePlayer running_idlePlayer len r
  have "calibFreq (?tr ! 0) \<le> calibFreq (?tr ! Suc 0)" by blast
  with t canStart_idlePlayer running_idlePlayer settled_idlePlayer len r
  show ?thesis by blast
qed

lemma runLiveCalibration_running: "isCalibrating s \<Longrightarrow> runLiveCalibration s = s"
  by (simp add: runLiveCalibration_def)

lemma doubleStart_eval:
  "doubleStart =
     [suspendedPlayer\<lparr>awaiting := 1\<rparr>,
      suspendedPlayer\<lparr>awaiting := 2\<rparr>,
      startSweep (suspendedPlayer\<lparr>ctxSuspended := False, awaiting := 1\<rparr>),
      startSweep ((startSweep (suspendedPlayer\<lparr>ctxSuspended := False, awaiting := 1\<rparr>))
                    \<lparr>ctxSuspended := False, awaiting := 0\<rparr>)]"
  by (simp add: doubleStart_def runLiveCalibration_def resumeResolved_def suspendedPlayer_def
        idlePlayer_def startSweep_eq)

text \<open>
  Claim C7 does not hold of the code. \<open>isCalibrating\<close> is set at line 136, after the
  \<open>await\<close> of line 135, so with a suspended context a second start request that comes
  before \<open>ctx.resume()\<close> is fulfilled passes the guard of line 133 as the first did. From
  the suspended player, after two requests two calls are suspended and the sweep is idle.
  When the first goes on, the sweep is running with one oscillator and three connections.
  The second then goes on in the running state and is not ignored: the state changes, there
  are two oscillators, six connections, and two closures each with its interval and its
  timeout set.
\<close>

theorem double_start_not_guarded:
  "length doubleStart = 4
   \<and> \<not> isCalibrating (doubleStart ! 0) \<and> awaiting (doubleStart ! 0) = 1
   \<and> \<not> isCalibrating (doubleStart ! 1) \<and> awaiting (doubleStart ! 1) = 2
   \<and> isCalibrating (doubleStart ! 2) \<and> length (oscillators (doubleStart ! 2)) = 1
   \<and> length (connections (doubleStart ! 2)) = 3
   \<and> doubleStart ! 3 \<noteq> doubleStart ! 2
   \<and> length (oscillators (doubleStart ! 3)) = 2
   \<and> connections (doubleStart ! 3) =
        [(OscillatorNode 0, GainNode 0), (GainNode 0, Destination), (GainNode 0, Analyser),
         (OscillatorNode 1, GainNode 1), (GainNode 1, Destination), (GainNode 1, Analyser)]
   \<and> closures (doubleStart ! 3) =
        [\<lparr>interval = Some 50, currentStep = 0, timeout = Some 3100\<rparr>,
         \<lparr>interval = Some 50, currentStep = 0, timeout = Some 3100\<rparr>]"
proof -
  have a: "length doubleStart = 4" by (simp add: doubleStart_eval)
  have b: "\<not> isCalibrating (doubleStart ! 0) \<and> awaiting (doubleStart ! 0) = 1
      \<and> \<not> isCalibrating (doubleStart ! 1) \<and> awaiting (doubleStart ! 1) = 2"
    by (simp add: doubleStart_eval suspendedPlayer_def idlePlayer_def)
  have c: "isCalibrating (doubleStart ! 2) \<and> length (oscillators (doubleStart ! 2)) = 1
      \<and> length (connections (doubleStart ! 2)) = 3"
    by (simp add: doubleStart_eval startSweep_eq suspendedPlayer_def idlePlayer_def)
  have d: "length (oscillators (doubleStart ! 3)) = 2"
    by (simp add: doubleStart_eval startSweep_eq suspendedPlayer_def idlePlayer_def)
  have e: "connections (doubleStart ! 3) =
        [(OscillatorNode 0, GainNode 0), (GainNode 0, Destination), (GainNode 0, Analyser),
         (OscillatorNode 1, GainNode 1), (GainNode 1, Destination), (GainNode 1, Analyser)]"
    by (simp add: doubleStart_eval startSweep_eq suspendedPlayer_def idlePlayer_def)
  have f: "closures (doubleStart ! 3) =
        [\<lparr>interval = Some 50, currentStep = 0, timeout = Some 3100\<rparr>,
         \<lparr>interval = Some 50, currentStep = 0, timeout = Some 3100\<rparr>]"
    by (simp add: doubleStart_eval startSweep_eq suspendedPlayer_def idlePlayer_def)
  from c d have g: "doubleStart ! 3 \<noteq> doubleStart ! 2" by auto
  from a b c d e f g show ?thesis by blast
qed

lemma connections_kept: "set (connections s) \<subseteq> set (connections (step s e))"
  by (cases e)
     (auto simp: runLiveCalibration_def resumeResolved_def startSweep_eq intervalCallback_def
           timeoutCallback_def Let_def)

text \<open>
  Claim C8 as stated fails: after a whole sweep from the idle player the sweep is idle
  again, and the gain stage of the oscillator is still connected to the destination and
  to the analyser.
\<close>

theorem calibration_not_disconnected_counterexample:
  "\<not> isCalibrating (last (sweep idlePlayer))
   \<and> (GainNode 0, Destination) \<in> set (connections (last (sweep idlePlayer)))
   \<and> (GainNode 0, Analyser) \<in> set (connections (last (sweep idlePlayer)))"
proof -
  have i: "connections idlePlayer = []" "oscillators idlePlayer = []"
    by (simp_all add: idlePlayer_def)
  have c: "connections (startSweep idlePlayer) =
        [(OscillatorNode 0, GainNode 0), (GainNode 0, Destination), (GainNode 0, Analyser)]"
    by (simp add: startSweep_eq i)
  show ?thesis
    using sweep_final [OF canStart_idlePlayer] by (simp add: c)
qed

text \<open>
  Claim C8, as amended. A sweep completes only by its timeout; there is no cancellation.
  On completion the sweep is idle and its closure has both timers cleared, and the
  oscillator it created was started at \<open>currentTime + 0.1\<close> and is scheduled to stop sixty
  step durations later, at the end of the ramp. The connections oscillator to gain, gain
  to destination and gain to analyser that the start added are all still in the graph,
  after the connections that were there before; no event ever removes a connection.
\<close>

theorem calibration_completion:
  assumes "canStart s"
  shows "\<not> isCalibrating (last (sweep s)) \<and> calibFreq (last (sweep s)) = 0
       \<and> closures (last (sweep s))
           = closures s @ [\<lparr>interval = None, currentStep = 60, timeout = None\<rparr>]
       \<and> (\<exists>osc. oscillators (last (sweep s)) = oscillators s @ [osc]
             \<and> startAt osc = Some (currentTime s + 1 / 10)
             \<and> stopAt osc = Some (currentTime s + 1 / 10 + 60 * stepDuration))
       \<and> connections (last (sweep s)) = connections s @
            [(OscillatorNode (length (oscillators s)), GainNode (length (oscillators s))),
             (GainNode (length (oscillators s)), Destination),
             (GainNode (length (oscillators s)), Analyser)]
       \<and> (\<forall>t e. set (connections t) \<subseteq> set (connections (step t e)))"
  using sweep_final [OF assms] connections_kept
  by (simp add: startSweep_eq stepDuration_def)

text \<open>The witnesses are a start with a running context and a start with a suspended one.\<close>

theorem calibration_completion_witness:
  "canStart idlePlayer
   \<and> \<not> isCalibrating (last (sweep idlePlayer))
   \<and> closures (last (sweep idlePlayer)) = [\<lparr>interval = None, currentStep = 60, timeout = None\<rparr>]
   \<and> connections (last (sweep idlePlayer)) =
        [(OscillatorNode 0, GainNode 0), (GainNode 0, Destination), (GainNode 0, Analyser)]
   \<and> canStart suspendedPlayer
   \<and> \<not> isCalibrating (last (sweep suspendedPlayer))
   \<and> connections (last (sweep suspendedPlayer)) =
        [(OscillatorNode 0, GainNode 0), (GainNode 0, Destination), (GainNode 0, Analyser)]"
proof -
  have i: "connections idlePlayer = []" "oscillators idlePlayer = []" "closures idlePlayer = []"
    by (simp_all add: idlePlayer_def)
  have j: "connections suspendedPlayer = []" "oscillators suspendedPlayer = []"
    by (simp_all add: suspendedPlayer_def idlePlayer_def)
  have c: "canStart suspendedPlayer"
    by (simp add: canStart_def suspendedPlayer_def idlePlayer_def)
  from calibration_completion [OF canStart_idlePlayer] i
  have a: "\<not> isCalibrating (last (sweep idlePlayer))
   \<and> closures (last (sweep idlePlayer)) = [\<lparr>interval = None, currentStep = 60, timeout = None\<rparr>]
   \<and> connections (last (sweep idlePlayer)) =
        [(OscillatorNode 0, GainNode 0), (GainNode 0, Destination), (GainNode 0, Analyser)]"
    by simp
  from calibration_completion [OF c] j
  have b: "\<not> isCalibrating (last (sweep suspendedPlayer))
   \<and> connections (last (sweep suspendedPlayer)) =
        [(OscillatorNode 0, GainNode 0), (GainNode 0, Destination), (GainNode 0, Analyser)]"
    by simp
  from canStart_idlePlayer a c b show ?thesis by blast
qed

section \<open>Colormap: results\<close>

lemma findInterval_find:
  "findInterval kps r = find (\<lambda>(s, e). pos s \<le> r \<and> r \<le> pos e) (zip kps (tl kps))"
  by (induction kps r rule: findInterval.induct) simp_all

lemma Math_round_round: "Math_round x = round x"
  by (simp add: Math_round_def round_def)

lemma channel_reference:
  "channel s e ((r - pos s) / (pos e - pos s)) c = reference_channel s e r c"
  by (simp add: channel_def reference_channel_def Math_round_round)

lemma colormapEntry_reference:
  assumes "reference_entry kps i = Some t"
  shows "colormapEntry kps i = t"
proof -
  let ?r = "of_nat i / 255 :: rat"
  from assms obtain s e where f: "find (\<lambda>(s, e). pos s \<le> ?r \<and> ?r \<le> pos e) (zip kps (tl kps)) = Some (s, e)"
    and ne: "pos e \<noteq> pos s" and t: "t = map (reference_channel s e ?r) [0, 1, 2]"
    by (auto simp: reference_entry_def Let_def split: option.splits if_splits)
  from f have "findInterval kps ?r = Some (s, e)" by (simp only: findInterval_find)
  with ne show ?thesis
    by (simp add: colormapEntry_def Let_def t channel_reference)
qed

lemma interpolation_bounds:
  fixes a b :: int and t :: rat
  assumes "0 \<le> a" "a \<le> 255" "0 \<le> b" "b \<le> 255" "0 \<le> t" "t \<le> 1"
  shows "0 \<le> round (of_int a + (of_int b - of_int a) * t)
       \<and> round (of_int a + (of_int b - of_int a) * t) \<le> 255"
proof -
  let ?v = "of_int a + (of_int b - of_int a) * t :: rat"
  have v: "?v = (1 - t) * of_int a + t * of_int b" by (simp add: algebra_simps)
  have "0 \<le> (1 - t) * of_int a" "0 \<le> t * of_int b"
    using assms by simp_all
  then have lo: "0 \<le> ?v" unfolding v by simp
  have a255: "(of_int a :: rat) \<le> 255" and b255: "(of_int b :: rat) \<le> 255"
    and t1: "0 \<le> 1 - t"
    using assms by simp_all
  have "(1 - t) * of_int a \<le> (1 - t) * 255"
    using a255 t1 by (rule mult_left_mono)
  moreover have "t * of_int b \<le> t * 255"
    using b255 assms(5) by (rule mult_left_mono)
  ultimately have "?v \<le> (1 - t) * 255 + t * 255" unfolding v by simp
  then have hi: "?v \<le> 255" by (simp add: algebra_simps)
  from lo have "round (0::rat) \<le> round ?v" by (rule round_mono)
  moreover from hi have "round ?v \<le> round (255::rat)" by (rule round_mono)
  ultimately show ?thesis by simp
qed

lemma keyPoints_pairs:
  "zip keyPoints (tl keyPoints) =
     [(\<lparr>pos = 0, color = [0, 0, 0, 1]\<rparr>, \<lparr>pos = 15 / 100, color = [20, 0, 60, 1]\<rparr>),
      (\<lparr>pos = 15 / 100, color = [20, 0, 60, 1]\<rparr>, \<lparr>pos = 4 / 10, color = [140, 0, 160, 1]\<rparr>),
      (\<lparr>pos = 4 / 10, color = [140, 0, 160, 1]\<rparr>, \<lparr>pos = 7 / 10, color = [255, 100, 0, 1]\<rparr>),
      (\<lparr>pos = 7 / 10, color = [255, 100, 0, 1]\<rparr>, \<lparr>pos = 1, color = [255, 255, 255, 1]\<rparr>)]"
  by (simp add: keyPoints_def)

lemma keyPoints_pair_ok:
  assumes "(s, e) \<in> set (zip keyPoints (tl keyPoints))" "c < 3"
  shows "pos s < pos e \<and> 0 \<le> color s ! c \<and> color s ! c \<le> 255
       \<and> 0 \<le> color e ! c \<and> color e ! c \<le> 255"
proof -
  from assms(2) have "c = 0 \<or> c = 1 \<or> c = 2" by auto
  with assms(1) show ?thesis
    unfolding keyPoints_pairs by auto
qed

lemma keyPoints_interval_exists:
  assumes "0 \<le> r" "r \<le> 1"
  shows "\<exists>s e. find (\<lambda>(s, e). pos s \<le> r \<and> r \<le> pos e) (zip keyPoints (tl keyPoints)) = Some (s, e)"
proof -
  from assms have "r \<le> 15 / 100 \<or> (15 / 100 \<le> r \<and> r \<le> 4 / 10)
      \<or> (4 / 10 \<le> r \<and> r \<le> 7 / 10) \<or> (7 / 10 \<le> r \<and> r \<le> 1)"
    by linarith
  with assms show ?thesis
    unfolding keyPoints_pairs by auto
qed


lemma find_SomeD: "find P xs = Some x \<Longrightarrow> x \<in> set xs \<and> P x"
  by (induction xs) (auto split: if_splits)

lemma reference_entry_defined:
  assumes "i < 256"
  shows "\<exists>t. reference_entry keyPoints i = Some t \<and> valid_rgb t"
proof -
  let ?r = "of_nat i / 255 :: rat"
  from assms have r: "0 \<le> ?r" "?r \<le> 1" by simp_all
  from keyPoints_interval_exists [OF r] obtain s e
    where f: "find (\<lambda>(s, e). pos s \<le> ?r \<and> ?r \<le> pos e) (zip keyPoints (tl keyPoints)) = Some (s, e)"
    by blast
  then have mem: "(s, e) \<in> set (zip keyPoints (tl keyPoints))" and inside: "pos s \<le> ?r" "?r \<le> pos e"
    using find_SomeD [OF f] by simp_all
  from keyPoints_pair_ok [OF mem, of 0] have lt: "pos s < pos e" by simp
  then have ne: "pos e \<noteq> pos s" by simp
  let ?t = "(?r - pos s) / (pos e - pos s)"
  from lt inside have t: "0 \<le> ?t" "?t \<le> 1" by simp_all
  have ch: "0 \<le> reference_channel s e ?r c \<and> reference_channel s e ?r c \<le> 255" if "c < 3" for c
  proof -
    from keyPoints_pair_ok [OF mem that]
    have "0 \<le> color s ! c" "color s ! c \<le> 255" "0 \<le> color e ! c" "color e ! c \<le> 255"
      by simp_all
    from interpolation_bounds [OF this t] show ?thesis
      by (simp add: reference_channel_def)
  qed
  have "reference_entry keyPoints i = Some (map (reference_channel s e ?r) [0, 1, 2])"
    using f ne by (simp add: reference_entry_def Let_def)
  moreover have "valid_rgb (map (reference_channel s e ?r) [0, 1, 2])"
    using ch [of 0] ch [of 1] ch [of 2] by (simp add: valid_rgb_def)
  ultimately show ?thesis by blast
qed

lemma colormap_nth:
  assumes "i < 256"
  shows "generateBirdSongColormap ! i = colormapEntry keyPoints i"
  using assms by (simp add: generateBirdSongColormap_def del: upt_Suc)

lemma colormap_first: "generateBirdSongColormap ! 0 = [0, 0, 0]"
  by (simp add: colormap_nth colormapEntry_def keyPoints_def channel_def Math_round_def Let_def)

lemma colormap_last: "generateBirdSongColormap ! 255 = [255, 255, 255]"
  by (simp add: colormap_nth colormapEntry_def keyPoints_def channel_def Math_round_def Let_def)

lemma colormap_102: "generateBirdSongColormap ! 102 = [140, 0, 160]"
  by (simp add: colormap_nth colormapEntry_def keyPoints_def channel_def Math_round_def Let_def)

text \<open>
  Claim C2. The colormap has 256 entries. For every index \<open>i\<close> below 256 the reference
  definition is defined at \<open>i\<close> (an interval of adjacent keyframes holds \<open>i / 255\<close>, and it
  is not empty) and gives entry \<open>i\<close> of the table: on the first such interval each channel
  is \<open>start + (end - start) * (ratio - start.pos) / (end.pos - start.pos)\<close>, rounded to the
  nearest integer. The entry has three channels, each between 0 and 255. Entry 0 is the
  colour of the first keyframe, entry 255 the colour of the last.
\<close>

theorem colormap_reference:
  "length generateBirdSongColormap = 256
   \<and> (\<forall>i<256. reference_entry keyPoints i = Some (generateBirdSongColormap ! i)
               \<and> valid_rgb (generateBirdSongColormap ! i))
   \<and> generateBirdSongColormap ! 0 = take 3 (color (hd keyPoints))
   \<and> generateBirdSongColormap ! 255 = take 3 (color (last keyPoints))"
proof -
  have len: "length generateBirdSongColormap = 256"
    by (simp add: generateBirdSongColormap_def)
  have all: "\<forall>i<256. reference_entry keyPoints i = Some (generateBirdSongColormap ! i)
               \<and> valid_rgb (generateBirdSongColormap ! i)"
  proof (intro allI impI)
    fix i :: nat
    assume i: "i < 256"
    from reference_entry_defined [OF i] obtain t
      where t: "reference_entry keyPoints i = Some t" and v: "valid_rgb t" by blast
    from t have "colormapEntry keyPoints i = t" by (rule colormapEntry_reference)
    with t v i show "reference_entry keyPoints i = Some (generateBirdSongColormap ! i)
               \<and> valid_rgb (generateBirdSongColormap ! i)"
      by (simp add: colormap_nth)
  qed
  have first: "generateBirdSongColormap ! 0 = take 3 (color (hd keyPoints))"
    by (simp add: colormap_first keyPoints_def)
  have last: "generateBirdSongColormap ! 255 = take 3 (color (last keyPoints))"
    by (simp add: colormap_last keyPoints_def)
  from len all first last show ?thesis by blast
qed

theorem colormap_reference_witness:
  "(102::nat) < 256
   \<and> reference_entry keyPoints 102 = Some [140, 0, 160]
   \<and> valid_rgb [140, 0, 160]
   \<and> generateBirdSongColormap ! 0 = [0, 0, 0]
   \<and> generateBirdSongColormap ! 255 = [255, 255, 255]"
proof -
  have h: "(102::nat) < 256" by simp
  from colormap_reference h
  have "reference_entry keyPoints 102 = Some (generateBirdSongColormap ! 102)
        \<and> valid_rgb (generateBirdSongColormap ! 102)"
    by blast
  then have "reference_entry keyPoints 102 = Some [140, 0, 160] \<and> valid_rgb [140, 0, 160]"
    by (simp only: colormap_102)
  with h colormap_first colormap_last show ?thesis by blast
qed

section \<open>Frequency axis: results\<close>

text \<open>
  Claim C3 as stated fails at the sample rate 16000 Hz (Nyquist frequency 8000 Hz) with
  1024 bins: the live renderer's \<open>maxFreqIndex\<close> is 1536, with the upper bound
  \<open>min(12000, 8000)\<close> it would be 1024, so that bin 512 is drawn at another height; and
  the static spectrogram is given 12000 as its maximum, not 8000.
\<close>

theorem axis_upper_bound_counterexample:
  "maxFreqIndex 16000 1024 = 1536 \<and> maxFreqIndex_spec 16000 1024 = 1024
   \<and> bandY 320 (maxFreqIndex 16000 1024) 512 \<noteq> bandY 320 (maxFreqIndex_spec 16000 1024) 512
   \<and> of_int (frequencyMax staticSpectrogramOptions) \<noteq> axisMax_spec 16000"
proof -
  have a: "maxFreqIndex 16000 1024 = 1536"
    by (simp add: maxFreqIndex_def FREQ_MAX_def)
  have b: "maxFreqIndex_spec 16000 1024 = 1024"
    by (simp add: maxFreqIndex_spec_def axisMax_spec_def FREQ_MAX_def)
  have c: "bandY 320 1536 512 \<noteq> bandY 320 1024 512"
    by (simp add: bandY_def)
  have d: "of_int (frequencyMax staticSpectrogramOptions) \<noteq> axisMax_spec 16000"
    by (simp add: staticSpectrogramOptions_def axisMax_spec_def FREQ_MAX_def)
  from a b c d show ?thesis by simp
qed

lemma bandY_differs:
  assumes "0 < H" "0 < i" "0 < m" "0 < m'" "m \<noteq> m'"
  shows "bandY H m i \<noteq> bandY H m' i"
proof
  assume "bandY H m i = bandY H m' i"
  then have "(of_nat i / of_int m) * (of_nat H :: rat) = (of_nat i / of_int m') * of_nat H"
    by (simp add: bandY_def)
  with assms(1) have "(of_nat i :: rat) / of_int m = of_nat i / of_int m'"
    by simp
  with assms(2,3,4) have "(of_int m :: rat) = of_int m'"
    by (simp add: frac_eq_eq)
  with assms(5) show False by simp
qed

text \<open>
  Claim C3, as amended. Both renderers take the configured maximum of 12000 Hz itself,
  not its minimum with the Nyquist frequency, as the upper bound of the frequency axis, at
  every sample rate. Whenever \<open>initWaveSurfer\<close> creates the static spectrogram it passes
  \<open>frequencyMin = 0\<close> and \<open>frequencyMax = FREQ_MAX\<close> (how the plugin maps bins from there
  is the library's). The live renderer's \<open>maxFreqIndex\<close> is the last bin not above
  \<open>FREQ_MAX\<close>, bin \<open>k\<close> of \<open>n\<close> lying at \<open>k * nyquist / n\<close>. Where the Nyquist frequency is at
  least 12000 Hz, 12000 Hz is the minimum and \<open>maxFreqIndex\<close> is the index which the
  minimum gives. Where it is below 12000 Hz, the minimum gives the number of bins as
  index; the live index is at least that, and equal to it exactly when
  \<open>FREQ_MAX / nyquist * n < n + 1\<close>. Whenever the two indices differ, every bin above
  bin 0 is drawn at another height than the minimum would give.
\<close>

theorem axis_upper_bound:
  assumes "0 < sampleRate" and "0 < n" and "0 < H"
  shows "(\<forall>opts. initWaveSurfer v = Some opts \<longrightarrow>
            frequencyMin opts = 0 \<and> frequencyMax opts = FREQ_MAX)
       \<and> of_int (maxFreqIndex sampleRate n) * (sampleRate / 2 / of_nat n) \<le> of_int FREQ_MAX
       \<and> of_int FREQ_MAX < (of_int (maxFreqIndex sampleRate n) + 1) * (sampleRate / 2 / of_nat n)
       \<and> (of_int FREQ_MAX \<le> sampleRate / 2 \<longrightarrow>
             axisMax_spec sampleRate = of_int FREQ_MAX
           \<and> maxFreqIndex sampleRate n = maxFreqIndex_spec sampleRate n)
       \<and> (sampleRate / 2 < of_int FREQ_MAX \<longrightarrow>
             axisMax_spec sampleRate = sampleRate / 2
           \<and> maxFreqIndex_spec sampleRate n = int n
           \<and> int n \<le> maxFreqIndex sampleRate n
           \<and> (maxFreqIndex sampleRate n = maxFreqIndex_spec sampleRate n
                \<longleftrightarrow> of_int FREQ_MAX / (sampleRate / 2) * of_nat n < of_nat n + 1))
       \<and> (maxFreqIndex sampleRate n \<noteq> maxFreqIndex_spec sampleRate n \<longrightarrow>
             (\<forall>i. 0 < i \<longrightarrow>
                bandY H (maxFreqIndex sampleRate n) i
                  \<noteq> bandY H (maxFreqIndex_spec sampleRate n) i))"
proof -
  let ?ny = "sampleRate / 2"
  let ?m = "maxFreqIndex sampleRate n"
  let ?x = "of_int FREQ_MAX / ?ny * of_nat n"
  from assms have ny: "0 < ?ny" and nn: "(0::rat) < of_nat n" by simp_all
  then have q: "0 < ?ny / of_nat n" by simp
  have m: "?m = \<lfloor>?x\<rfloor>" by (simp only: maxFreqIndex_def Let_def)
  have x: "?x * (?ny / of_nat n) = of_int FREQ_MAX"
    using ny nn by simp
  have "of_int ?m \<le> ?x" unfolding m by (rule of_int_floor_le)
  then have "of_int ?m * (?ny / of_nat n) \<le> ?x * (?ny / of_nat n)"
    using q by (simp only: mult_le_cancel_right_pos)
  then have lo: "of_int ?m * (?ny / of_nat n) \<le> of_int FREQ_MAX"
    by (simp only: x)
  have "?x < of_int ?m + 1" unfolding m by linarith
  then have "?x * (?ny / of_nat n) < (of_int ?m + 1) * (?ny / of_nat n)"
    using q by (simp only: mult_less_cancel_right_pos)
  then have hi: "of_int FREQ_MAX < (of_int ?m + 1) * (?ny / of_nat n)"
    by (simp only: x)
  have st: "\<forall>opts. initWaveSurfer v = Some opts \<longrightarrow>
            frequencyMin opts = 0 \<and> frequencyMax opts = FREQ_MAX"
    by (auto simp: initWaveSurfer_def staticSpectrogramOptions_def split: if_splits)
  have ge: "of_int FREQ_MAX \<le> ?ny \<longrightarrow>
             axisMax_spec sampleRate = of_int FREQ_MAX
           \<and> maxFreqIndex sampleRate n = maxFreqIndex_spec sampleRate n"
  proof
    assume "of_int FREQ_MAX \<le> ?ny"
    then have a: "axisMax_spec sampleRate = of_int FREQ_MAX"
      by (simp add: axisMax_spec_def min_def)
    have "maxFreqIndex_spec sampleRate n = ?m"
      unfolding maxFreqIndex_spec_def a m ..
    with a show "axisMax_spec sampleRate = of_int FREQ_MAX
           \<and> maxFreqIndex sampleRate n = maxFreqIndex_spec sampleRate n" by simp
  qed
  have lt: "?ny < of_int FREQ_MAX \<longrightarrow>
             axisMax_spec sampleRate = ?ny
           \<and> maxFreqIndex_spec sampleRate n = int n
           \<and> int n \<le> maxFreqIndex sampleRate n
           \<and> (maxFreqIndex sampleRate n = maxFreqIndex_spec sampleRate n
                \<longleftrightarrow> ?x < of_nat n + 1)"
  proof
    assume l: "?ny < of_int FREQ_MAX"
    then have a: "axisMax_spec sampleRate = ?ny"
      by (simp add: axisMax_spec_def min_def)
    from ny have "?ny / ?ny = 1" by simp
    then have b: "maxFreqIndex_spec sampleRate n = int n"
      unfolding maxFreqIndex_spec_def a by simp
    from l ny have "1 < of_int FREQ_MAX / ?ny" by (simp add: less_divide_eq)
    then have "of_nat n * 1 \<le> of_nat n * (of_int FREQ_MAX / ?ny)"
      using nn by (intro mult_left_mono) simp_all
    then have nx: "of_int (int n) \<le> ?x" by (simp add: mult.commute)
    then have c: "int n \<le> ?m" unfolding m by (simp only: le_floor_iff)
    have "\<lfloor>?x\<rfloor> = int n \<longleftrightarrow> of_int (int n) \<le> ?x \<and> ?x < of_int (int n) + 1"
      by (rule floor_eq_iff)
    with nx have d: "?m = int n \<longleftrightarrow> ?x < of_nat n + 1"
      unfolding m by simp
    from a b c d show "axisMax_spec sampleRate = ?ny
           \<and> maxFreqIndex_spec sampleRate n = int n
           \<and> int n \<le> maxFreqIndex sampleRate n
           \<and> (maxFreqIndex sampleRate n = maxFreqIndex_spec sampleRate n
                \<longleftrightarrow> ?x < of_nat n + 1)" by simp
  qed
  have df: "?m \<noteq> maxFreqIndex_spec sampleRate n \<longrightarrow>
             (\<forall>i. 0 < i \<longrightarrow> bandY H ?m i \<noteq> bandY H (maxFreqIndex_spec sampleRate n) i)"
  proof (intro impI allI)
    fix i :: nat
    assume ne: "?m \<noteq> maxFreqIndex_spec sampleRate n" and i: "0 < i"
    from ne ge have "?ny < of_int FREQ_MAX" by auto
    with lt have sp: "maxFreqIndex_spec sampleRate n = int n" and le: "int n \<le> ?m" by simp_all
    from assms(2) sp have p1: "0 < maxFreqIndex_spec sampleRate n" by simp
    from assms(2) le have p2: "0 < ?m" by simp
    from assms(3) i p2 p1 ne show "bandY H ?m i \<noteq> bandY H (maxFreqIndex_spec sampleRate n) i"
      by (rule bandY_differs)
  qed
  from st lo hi ge lt df show ?thesis by blast
qed

lemma fileView_options: "initWaveSurfer fileView = Some staticSpectrogramOptions"
  by (simp add: initWaveSurfer_def waveformRef_def spectrogramRef_def fileView_def)

theorem axis_upper_bound_witness:
  "(0::rat) < 16000 \<and> (0::nat) < 1024 \<and> (0::nat) < 320
   \<and> initWaveSurfer fileView = Some staticSpectrogramOptions
   \<and> frequencyMax staticSpectrogramOptions = FREQ_MAX
   \<and> (16000::rat) / 2 < of_int FREQ_MAX
   \<and> maxFreqIndex_spec 16000 1024 = 1024 \<and> 1024 \<le> maxFreqIndex 16000 1024
   \<and> maxFreqIndex 16000 1024 \<noteq> maxFreqIndex_spec 16000 1024
   \<and> bandY 320 (maxFreqIndex 16000 1024) 512 \<noteq> bandY 320 (maxFreqIndex_spec 16000 1024) 512
   \<and> (23998::rat) / 2 < of_int FREQ_MAX
   \<and> maxFreqIndex 23998 1024 = maxFreqIndex_spec 23998 1024
   \<and> of_int FREQ_MAX \<le> (48000::rat) / 2
   \<and> maxFreqIndex 48000 1024 = maxFreqIndex_spec 48000 1024"
proof -
  have h: "(0::rat) < 16000" "(0::nat) < 1024" "(0::nat) < 320" "(0::rat) < 48000"
    "(0::rat) < 23998"
    by simp_all
  have l: "(16000::rat) / 2 < of_int FREQ_MAX" "of_int FREQ_MAX \<le> (48000::rat) / 2"
    "(23998::rat) / 2 < of_int FREQ_MAX"
    by (simp_all add: FREQ_MAX_def)
  note t16 = axis_upper_bound [OF h(1) h(2) h(3), of fileView]
  note t24 = axis_upper_bound [OF h(5) h(2) h(3), of fileView]
  note t48 = axis_upper_bound [OF h(4) h(2) h(3), of fileView]
  from t16 fileView_options
  have s: "frequencyMax staticSpectrogramOptions = FREQ_MAX" by blast
  from t16 l(1)
  have a: "maxFreqIndex_spec 16000 1024 = 1024 \<and> 1024 \<le> maxFreqIndex 16000 1024"
    by simp
  have "\<not> of_int FREQ_MAX / ((16000::rat) / 2) * of_nat 1024 < of_nat 1024 + 1"
    by (simp add: FREQ_MAX_def)
  with t16 l(1) have ne: "maxFreqIndex 16000 1024 \<noteq> maxFreqIndex_spec 16000 1024"
    by blast
  have "(0::nat) < 512" by simp
  with t16 ne
  have d: "bandY 320 (maxFreqIndex 16000 1024) 512 \<noteq> bandY 320 (maxFreqIndex_spec 16000 1024) 512"
    by blast
  have "of_int FREQ_MAX / ((23998::rat) / 2) * of_nat 1024 < of_nat 1024 + 1"
    by (simp add: FREQ_MAX_def)
  with t24 l(3) have e: "maxFreqIndex 23998 1024 = maxFreqIndex_spec 23998 1024"
    by blast
  from t48 l(2)
  have b: "maxFreqIndex 48000 1024 = maxFreqIndex_spec 48000 1024"
    by blast
  from h l fileView_options s a ne d e b show ?thesis by blast
qed

section \<open>Snapshot: results\<close>

lemma toString_digits: "toString n \<noteq> [] \<and> (\<forall>ch \<in> set (toString n). is_digit ch)"
proof (induction n rule: toString.induct)
  case (1 n)
  show ?case
  proof (cases "n < 10")
    case True
    then show ?thesis
      by (subst (1 2) toString.simps) (simp add: is_digit_def digit_char_def)
  next
    case False
    have "n mod 10 < 10" by simp
    then have "is_digit (digit_char (n mod 10))"
      by (simp add: is_digit_def digit_char_def)
    with False 1 show ?thesis
      by (subst (1 2) toString.simps) simp
  qed
qed

text \<open>
  Claim C9. With no track and no microphone stream, and whenever the active mode has no
  canvas, \<open>takeSnapshot\<close> starts no download; it is a total function, nothing is raised.
  When the active mode has a canvas it starts exactly one download: the PNG encoding of
  that canvas under the name \<open>spectrogram-<name>-<now>.png\<close>, where \<open><name>\<close> is the
  track's name, or \<open>live\<close> when there is no track or its name is empty, and \<open><now>\<close> is
  \<open>Date.now()\<close> in decimal digits. A microphone stream always has its canvas; a track has
  one once the spectrogram plugin has drawn it.
\<close>

theorem takeSnapshot_result:
  "(track v = None \<and> \<not> micStream v \<longrightarrow> takeSnapshot v now = [])
   \<and> (targetCanvas v = None \<longrightarrow> takeSnapshot v now = [])
   \<and> (\<forall>cv. targetCanvas v = Some cv \<longrightarrow>
          (\<exists>n. takeSnapshot v now = [\<lparr>dl_name = n, dl_png_of = cv\<rparr>]
               \<and> snapshot_name (case track v of
                                    None \<Rightarrow> ''live''
                                  | Some t \<Rightarrow> if af_name t = [] then ''live'' else af_name t) n
               \<and> n = ''spectrogram-'' @ trackNameOrLive v @ ''-'' @ toString now @ ''.png''))
   \<and> (micStream v \<longrightarrow> targetCanvas v = Some LiveCanvas)
   \<and> (\<not> micStream v \<and> track v \<noteq> None \<and> pluginCanvas v
         \<longrightarrow> targetCanvas v = Some SpectrogramCanvas)"
proof -
  have nm: "trackNameOrLive v = (case track v of
                                    None \<Rightarrow> ''live''
                                  | Some t \<Rightarrow> if af_name t = [] then ''live'' else af_name t)"
    by (simp add: trackNameOrLive_def or_else_def split: option.splits)
  have pat: "snapshot_name (trackNameOrLive v)
               (''spectrogram-'' @ trackNameOrLive v @ ''-'' @ toString now @ ''.png'')"
    unfolding snapshot_name_def using toString_digits [of now] by blast
  have a: "track v = None \<and> \<not> micStream v \<longrightarrow> takeSnapshot v now = []"
    by (simp add: takeSnapshot_def targetCanvas_def querySpectrogramCanvas_def spectrogramRef_def)
  have b: "targetCanvas v = None \<longrightarrow> takeSnapshot v now = []"
    by (simp add: takeSnapshot_def)
  have c: "\<forall>cv. targetCanvas v = Some cv \<longrightarrow>
          (\<exists>n. takeSnapshot v now = [\<lparr>dl_name = n, dl_png_of = cv\<rparr>]
               \<and> snapshot_name (case track v of
                                    None \<Rightarrow> ''live''
                                  | Some t \<Rightarrow> if af_name t = [] then ''live'' else af_name t) n
               \<and> n = ''spectrogram-'' @ trackNameOrLive v @ ''-'' @ toString now @ ''.png'')"
  proof (intro allI impI)
    fix cv
    assume "targetCanvas v = Some cv"
    then have "takeSnapshot v now =
        [\<lparr>dl_name = ''spectrogram-'' @ trackNameOrLive v @ ''-'' @ toString now @ ''.png'',
          dl_png_of = cv\<rparr>]"
      by (simp add: takeSnapshot_def)
    moreover from pat have "snapshot_name (case track v of
                                    None \<Rightarrow> ''live''
                                  | Some t \<Rightarrow> if af_name t = [] then ''live'' else af_name t)
           (''spectrogram-'' @ trackNameOrLive v @ ''-'' @ toString now @ ''.png'')"
      by (simp only: nm)
    ultimately show "\<exists>n. takeSnapshot v now = [\<lparr>dl_name = n, dl_png_of = cv\<rparr>]
               \<and> snapshot_name (case track v of
                                    None \<Rightarrow> ''live''
                                  | Some t \<Rightarrow> if af_name t = [] then ''live'' else af_name t) n
               \<and> n = ''spectrogram-'' @ trackNameOrLive v @ ''-'' @ toString now @ ''.png''"
      by blast
  qed
  have d: "micStream v \<longrightarrow> targetCanvas v = Some LiveCanvas"
    by (simp add: targetCanvas_def liveCanvasRef_def)
  have e: "\<not> micStream v \<and> track v \<noteq> None \<and> pluginCanvas v
         \<longrightarrow> targetCanvas v = Some SpectrogramCanvas"
    by (simp add: targetCanvas_def querySpectrogramCanvas_def spectrogramRef_def)
  from a b c d e show ?thesis by blast
qed

lemma digit_char_eval:
  "digit_char 0 = CHR ''0''" "digit_char 1 = CHR ''1''" "digit_char 2 = CHR ''2''"
  "digit_char 3 = CHR ''3''" "digit_char 4 = CHR ''4''" "digit_char 5 = CHR ''5''"
  "digit_char 6 = CHR ''6''" "digit_char 7 = CHR ''7''" "digit_char 8 = CHR ''8''"
  "digit_char 9 = CHR ''9''" "digit_char (Suc 0) = CHR ''1''"
  by (simp_all add: digit_char_def char_eq_code)

lemma toString_example: "toString 1700000000000 = ''1700000000000''"
  by (simp add: toString.simps digit_char_eval)

theorem takeSnapshot_result_witness:
  "takeSnapshot \<lparr>track = None, micStream = False, pluginCanvas = False\<rparr> 1700000000000 = []
   \<and> targetCanvas \<lparr>track = None, micStream = True, pluginCanvas = False\<rparr> = Some LiveCanvas
   \<and> takeSnapshot \<lparr>track = None, micStream = True, pluginCanvas = False\<rparr> 1700000000000
       = [\<lparr>dl_name = ''spectrogram-live-1700000000000.png'', dl_png_of = LiveCanvas\<rparr>]"
proof -
  let ?idle = "\<lparr>track = None, micStream = False, pluginCanvas = False\<rparr>"
  let ?mic = "\<lparr>track = None, micStream = True, pluginCanvas = False\<rparr>"
  have h1: "track ?idle = None \<and> \<not> micStream ?idle" by simp
  have h2: "micStream ?mic" by simp
  note t1 = takeSnapshot_result [of ?idle 1700000000000]
  note t2 = takeSnapshot_result [of ?mic 1700000000000]
  from t1 h1 have r1: "takeSnapshot ?idle 1700000000000 = []" by blast
  from t2 h2 have tc: "targetCanvas ?mic = Some LiveCanvas" by blast
  with t2 have "takeSnapshot ?mic 1700000000000 =
      [\<lparr>dl_name = ''spectrogram-'' @ trackNameOrLive ?mic @ ''-'' @ toString 1700000000000 @ ''.png'',
        dl_png_of = LiveCanvas\<rparr>]"
    by blast
  then have r2: "takeSnapshot ?mic 1700000000000
       = [\<lparr>dl_name = ''spectrogram-live-1700000000000.png'', dl_png_of = LiveCanvas\<rparr>]"
    by (simp add: trackNameOrLive_def or_else_def toString_example)
  from r1 tc r2 show ?thesis by blast
qed

end
